theory Spec2Isabelle
  imports Complex_Main
begin

section \<open>The chunker (chunkText)\<close>

text \<open>
  A JavaScript string is a sequence of code units. The model takes the code units below
  256, one \<^typ>\<open>char\<close> each; in that range \<open>String.prototype.trim\<close> removes exactly
  TAB, LF, VT, FF, CR, SPACE and NBSP.
\<close>

definition CHUNK_CHAR_LIMIT :: nat where
  "CHUNK_CHAR_LIMIT = 250"

definition isWhiteSpace :: "char \<Rightarrow> bool" where
  "isWhiteSpace c \<longleftrightarrow>
     c \<in> set [CHR 0x09, CHR 0x0A, CHR 0x0B, CHR 0x0C, CHR 0x0D, CHR 0x20, CHR 0xA0]"

definition trim :: "string \<Rightarrow> string" where
  "trim s = rev (dropWhile isWhiteSpace (rev (dropWhile isWhiteSpace s)))"

text \<open>\<open>s.substring(a, b)\<close> for non-negative arguments: both are clamped to the length
  and swapped when out of order.\<close>

definition substring :: "string \<Rightarrow> nat \<Rightarrow> nat \<Rightarrow> string" where
  "substring s a b =
     (let a' = min a (length s); b' = min b (length s);
          lo = min a' b'; hi = max a' b'
      in take (hi - lo) (drop lo s))"

text \<open>\<open>s.lastIndexOf(c, fromIndex)\<close> for a single character: the greatest index not
  above \<open>fromIndex\<close> that holds \<open>c\<close>, or \<open>-1\<close>.\<close>

fun lastIndexOf :: "string \<Rightarrow> char \<Rightarrow> nat \<Rightarrow> int" where
  "lastIndexOf s c 0 = (if s \<noteq> [] \<and> s ! 0 = c then 0 else -1)"
| "lastIndexOf s c (Suc k) =
     (if Suc k < length s \<and> s ! Suc k = c then int (Suc k) else lastIndexOf s c k)"

text \<open>The body of the loop up to the cut: the value of \<open>chunkEnd\<close> when the chunk is
  taken, for the cursor \<open>i\<close>.\<close>

definition chunkEndAt :: "string \<Rightarrow> nat \<Rightarrow> nat" where
  "chunkEndAt text i =
     (let chunkEnd = i + CHUNK_CHAR_LIMIT in
      if chunkEnd < length text then
        (let sentenceEnd = lastIndexOf text (CHR ''.'') chunkEnd;
             sentenceEnd = (if sentenceEnd \<le> int i
                            then lastIndexOf text (CHR ''?'') chunkEnd else sentenceEnd);
             sentenceEnd = (if sentenceEnd \<le> int i
                            then lastIndexOf text (CHR ''!'') chunkEnd else sentenceEnd)
         in if sentenceEnd > int i then nat (sentenceEnd + 1) else chunkEnd)
      else chunkEnd)"

lemma chunkEndAt_gt: "i < chunkEndAt text i"
  by (auto simp: chunkEndAt_def Let_def CHUNK_CHAR_LIMIT_def)

function chunkLoop :: "string \<Rightarrow> nat \<Rightarrow> string list \<Rightarrow> string list" where
  "chunkLoop text i chunks =
     (if i < length text then
        (let chunkEnd = chunkEndAt text i;
             chunk = trim (substring text i chunkEnd)
         in chunkLoop text chunkEnd (if chunk \<noteq> [] then chunks @ [chunk] else chunks))
      else chunks)"
  by pat_completeness auto
termination
  by (relation "measure (\<lambda>(text, i, chunks). length text - i)")
     (use chunkEndAt_gt in \<open>auto intro: diff_less_mono2\<close>)

declare chunkLoop.simps [simp del]

definition chunkText :: "string \<Rightarrow> string list" where
  "chunkText text = (if text = [] then [] else chunkLoop text 0 [])"


text \<open>The substrings the loop cuts, before \<open>trim\<close> and before the empty ones are
  dropped: an auxiliary view of the same loop, related to it by \<open>chunkLoop_rawPieces\<close>.\<close>

function rawPieces :: "string \<Rightarrow> nat \<Rightarrow> string list" where
  "rawPieces text i =
     (if i < length text
      then substring text i (chunkEndAt text i) # rawPieces text (chunkEndAt text i)
      else [])"
  by pat_completeness auto
termination
  by (relation "measure (\<lambda>(text, i). length text - i)")
     (use chunkEndAt_gt in \<open>auto intro: diff_less_mono2\<close>)

declare rawPieces.simps [simp del]

section \<open>The seek arithmetic of skip\<close>

datatype js_error = TypeError

type_synonym chapter_chunks = "string list list"

type_synonym position = "int \<times> int \<times> int"

text \<open>\<open>xs[i]\<close> on an array: \<open>undefined\<close> (here \<open>None\<close>) outside the indices.\<close>

definition jsIndex :: "'a list \<Rightarrow> int \<Rightarrow> 'a option" where
  "jsIndex xs i = (if 0 \<le> i \<and> i < int (length xs) then Some (xs ! nat i) else None)"

text \<open>The first loop of \<open>skip\<close>, \<open>while (char < 0)\<close>. Reading \<open>.length\<close> or an
  element of \<open>undefined\<close> throws a TypeError.\<close>

function seekBackward :: "chapter_chunks \<Rightarrow> int \<Rightarrow> int \<Rightarrow> int \<Rightarrow> js_error + position" where
  "seekBackward cs chap chunk ch =
     (if ch < 0 then
        (let chunk1 = chunk - 1 in
         if chunk1 < 0 then
           (let chap1 = chap - 1 in
            if chap1 < 0 then Inr (0, 0, 0)
            else
              (case jsIndex cs chap1 of
                 None \<Rightarrow> Inl TypeError
               | Some chapter \<Rightarrow>
                   (let chunk2 = int (length chapter) - 1 in
                    case jsIndex chapter chunk2 of
                      None \<Rightarrow> Inl TypeError
                    | Some c \<Rightarrow> seekBackward cs chap1 chunk2 (ch + int (length c)))))
         else
           (case jsIndex cs chap of
              None \<Rightarrow> Inl TypeError
            | Some chapter \<Rightarrow>
                (case jsIndex chapter chunk1 of
                   None \<Rightarrow> Inl TypeError
                 | Some c \<Rightarrow> seekBackward cs chap chunk1 (ch + int (length c)))))
      else Inr (chap, chunk, ch))"
  by pat_completeness auto
termination
  by (relation "measures [\<lambda>(cs, chap, chunk, ch). nat chap, \<lambda>(cs, chap, chunk, ch). nat chunk]")
     auto

declare seekBackward.simps [simp del]

text \<open>\<open>chapterChunks[chap]?.[chunk]?.length ?? 0\<close>\<close>

definition chunkLengthOr0 :: "chapter_chunks \<Rightarrow> int \<Rightarrow> int \<Rightarrow> int" where
  "chunkLengthOr0 cs chap chunk =
     (case jsIndex cs chap of
        None \<Rightarrow> 0
      | Some chapter \<Rightarrow> (case jsIndex chapter chunk of None \<Rightarrow> 0 | Some c \<Rightarrow> int (length c)))"

text \<open>The second loop of \<open>skip\<close>, \<open>while (char >= (chapterChunks[chap]?.[chunk]?.length ?? 0))\<close>.\<close>

function seekForward :: "chapter_chunks \<Rightarrow> int \<Rightarrow> int \<Rightarrow> int \<Rightarrow> js_error + position" where
  "seekForward cs chap chunk ch =
     (if ch \<ge> chunkLengthOr0 cs chap chunk then
        (case jsIndex cs chap of
           None \<Rightarrow> Inl TypeError
         | Some chapter \<Rightarrow>
             (case jsIndex chapter chunk of
                None \<Rightarrow> Inl TypeError
              | Some c \<Rightarrow>
                  (let ch1 = ch - int (length c); chunk1 = chunk + 1 in
                   if chunk1 \<ge> int (length chapter) then
                     (let chap1 = chap + 1 in
                      if chap1 \<ge> int (length cs) then
                        (let chap2 = int (length cs) - 1 in
                         case jsIndex cs chap2 of
                           None \<Rightarrow> Inl TypeError
                         | Some lastChapter \<Rightarrow>
                             (let chunk2 = int (length lastChapter) - 1 in
                              case jsIndex lastChapter chunk2 of
                                None \<Rightarrow> Inl TypeError
                              | Some lc \<Rightarrow> Inr (chap2, chunk2, int (length lc) - 1)))
                      else seekForward cs chap1 0 ch1)
                   else seekForward cs chap chunk1 ch1)))
      else Inr (chap, chunk, ch))"
  by pat_completeness auto
termination
  by (relation "measures [\<lambda>(cs, chap, chunk, ch). nat (int (length cs) - chap),
                          \<lambda>(cs, chap, chunk, ch). nat (int (length (cs ! nat chap)) - chunk)]")
     (auto simp: jsIndex_def split: if_splits)

declare seekForward.simps [simp del]

text \<open>Both loops in sequence, from \<open>char = currentCharIndex + charOffset\<close>: the position
  that \<open>skip\<close> stores and speaks from.\<close>

definition seek :: "chapter_chunks \<Rightarrow> position \<Rightarrow> int \<Rightarrow> js_error + position" where
  "seek cs p charOffset =
     (case p of (chap, chunk, ch) \<Rightarrow>
        (case seekBackward cs chap chunk (ch + charOffset) of
           Inl e \<Rightarrow> Inl e
         | Inr (chap', chunk', ch') \<Rightarrow> seekForward cs chap' chunk' ch'))"


subsection \<open>The second loop in the other version of the hook\<close>

text \<open>The version of the hook whose \<open>skip\<close> takes the character offset has the same first
  loop, and this second loop,
  \<open>while (targetCharInChunk >= currentChunkLength && currentChunkLength > 0)\<close>, with
  \<open>currentChunkLength = chapterChunks.current[chapterIdx]?.[chunkIdx]?.length ?? 0\<close> computed
  before the loop and at the end of each round. \<open>chapters.length\<close> is the length of
  \<open>chapterChunks.current\<close>, which is \<open>chapters.map(chunkText)\<close>.\<close>

function seekForward_v2 :: "chapter_chunks \<Rightarrow> int \<Rightarrow> int \<Rightarrow> int \<Rightarrow> js_error + position" where
  "seekForward_v2 cs chapterIdx chunkIdx targetCharInChunk =
     (let currentChunkLength = chunkLengthOr0 cs chapterIdx chunkIdx in
      if targetCharInChunk \<ge> currentChunkLength \<and> currentChunkLength > 0 then
        (let target1 = targetCharInChunk - currentChunkLength; chunk1 = chunkIdx + 1 in
         case jsIndex cs chapterIdx of
           None \<Rightarrow> Inl TypeError
         | Some chapter \<Rightarrow>
             if chunk1 \<ge> int (length chapter) then
               (let chap1 = chapterIdx + 1 in
                if chap1 \<ge> int (length cs) then
                  (let chap2 = int (length cs) - 1 in
                   case jsIndex cs chap2 of
                     None \<Rightarrow> Inl TypeError
                   | Some lastChapter \<Rightarrow>
                       (let chunk2 = int (length lastChapter) - 1 in
                        case jsIndex lastChapter chunk2 of
                          None \<Rightarrow> Inl TypeError
                        | Some lc \<Rightarrow> Inr (chap2, chunk2, int (length lc))))
                else seekForward_v2 cs chap1 0 target1)
             else seekForward_v2 cs chapterIdx chunk1 target1)
      else Inr (chapterIdx, chunkIdx, targetCharInChunk))"
  by pat_completeness auto
termination
  by (relation "measures [\<lambda>(cs, chap, chunk, ch). nat (int (length cs) - chap),
                          \<lambda>(cs, chap, chunk, ch). nat (int (length (cs ! nat chap)) - chunk)]")
     (auto simp: chunkLengthOr0_def jsIndex_def split: if_splits option.splits)

declare seekForward_v2.simps [simp del]

text \<open>Both loops, and then
  \<open>finalCharIndex = Math.max(0, Math.min(targetCharInChunk, finalChunkLength))\<close>: the
  position that this \<open>skip\<close> plays from.\<close>

definition seek_v2 :: "chapter_chunks \<Rightarrow> position \<Rightarrow> int \<Rightarrow> js_error + position" where
  "seek_v2 cs p charOffset =
     (case p of (chapterIdx, chunkIdx, ch) \<Rightarrow>
        (case seekBackward cs chapterIdx chunkIdx (ch + charOffset) of
           Inl e \<Rightarrow> Inl e
         | Inr (chapterIdx', chunkIdx', target) \<Rightarrow>
             (case seekForward_v2 cs chapterIdx' chunkIdx' target of
                Inl e \<Rightarrow> Inl e
              | Inr (chapterIdx'', chunkIdx'', target') \<Rightarrow>
                  Inr (chapterIdx'', chunkIdx'',
                       max 0 (min target' (chunkLengthOr0 cs chapterIdx'' chunkIdx''))))))"

subsection \<open>Notions for stating the properties of the seek arithmetic\<close>

text \<open>The chapters as the parser and the chunker deliver them: the parser drops a chapter
  without text, and \<open>chunkText\<close> drops an empty chunk, so every chapter has a chunk and no
  chunk is empty.\<close>

definition chunked :: "chapter_chunks \<Rightarrow> bool" where
  "chunked cs = list_all (\<lambda>chapter. chapter \<noteq> [] \<and> list_all (\<lambda>c. c \<noteq> []) chapter) cs"

definition validIndex :: "chapter_chunks \<Rightarrow> int \<Rightarrow> int \<Rightarrow> bool" where
  "validIndex cs chap chunk \<longleftrightarrow>
     0 \<le> chap \<and> chap < int (length cs) \<and> 0 \<le> chunk \<and> chunk < int (length (cs ! nat chap))"

definition chunkLen :: "chapter_chunks \<Rightarrow> int \<Rightarrow> int \<Rightarrow> int" where
  "chunkLen cs chap chunk = int (length (cs ! nat chap ! nat chunk))"

definition normalized :: "chapter_chunks \<Rightarrow> position \<Rightarrow> bool" where
  "normalized cs p =
     (case p of (chap, chunk, ch) \<Rightarrow>
        validIndex cs chap chunk \<and> 0 \<le> ch \<and> ch < chunkLen cs chap chunk)"

text \<open>The position at which the second loop clamps.\<close>

definition lastPosition :: "chapter_chunks \<Rightarrow> position" where
  "lastPosition cs =
     (let chap = int (length cs) - 1; chunk = int (length (cs ! nat chap)) - 1
      in (chap, chunk, int (length (cs ! nat chap ! nat chunk)) - 1))"

text \<open>The characters from the start of a chunk to the end of the book, and those before
  the chunk.\<close>

definition chapterChars :: "string list \<Rightarrow> nat" where
  "chapterChars chapter = sum_list (map length chapter)"

definition charsFrom :: "chapter_chunks \<Rightarrow> int \<Rightarrow> int \<Rightarrow> int" where
  "charsFrom cs chap chunk =
     int (sum_list (map length (drop (nat chunk) (cs ! nat chap)))
          + sum_list (map chapterChars (drop (Suc (nat chap)) cs)))"

definition charsBefore :: "chapter_chunks \<Rightarrow> int \<Rightarrow> int \<Rightarrow> int" where
  "charsBefore cs chap chunk =
     int (sum_list (map chapterChars (take (nat chap) cs))
          + sum_list (map length (take (nat chunk) (cs ! nat chap))))"

text \<open>The bounds of a position in the data model: the chapter is one of the book, the
  chunk one of the chapter (0 in a chapter without chunks), the character index at most
  the length of the chunk.\<close>

definition validPosition :: "chapter_chunks \<Rightarrow> position \<Rightarrow> bool" where
  "validPosition cs p =
     (case p of (chap, chunk, ch) \<Rightarrow>
        0 \<le> chap \<and> chap < int (length cs) \<and>
        (if cs ! nat chap = [] then chunk = 0
         else 0 \<le> chunk \<and> chunk < int (length (cs ! nat chap))) \<and>
        0 \<le> ch \<and> ch \<le> chunkLengthOr0 cs chap chunk)"

text \<open>The order of positions: by chapter, then chunk, then character.\<close>

definition posLe :: "position \<Rightarrow> position \<Rightarrow> bool" where
  "posLe p q =
     (case p of (a, b, c) \<Rightarrow> case q of (a', b', c') \<Rightarrow>
        a < a' \<or> (a = a' \<and> (b < b' \<or> (b = b' \<and> c \<le> c'))))"

section \<open>The playback hook (useSpeechSynthesis)\<close>

text \<open>
  The repository holds three versions of the hook. The first one of
  \<open>src/hooks/useSpeechSynthesis.ts\<close> is modelled in full; its \<open>pause\<close>, \<open>speak\<close>,
  \<open>onend\<close>, \<open>play\<close>, \<open>resume\<close>, \<open>jumpToChapter\<close>, \<open>skip\<close> and effects are the same text in
  the version with the service worker channel, which differs in the watchdog
  (\<open>speak_sw\<close>, \<open>watchdogTimeout\<close> below) and in one letter of the error message. Of the
  remaining version the second loop of \<open>skip\<close>, the error handler, \<open>cancel\<close> and the effect
  on a change of chapters are modelled, with the suffix \<open>_v2\<close>.

  A callback runs to its end before the next one starts; the state it reads
  (\<open>playbackStateRef\<close>, \<open>sleepTimerRef\<close>) is the state of the last render. So a callback
  is a function from the state to the state. Numbers are integers.
\<close>

datatype sleep_timer = NoTimer | Seconds int | EndOfChapter

text \<open>A \<open>SpeechSynthesisUtterance\<close> with the arguments of the \<open>speak\<close> call its handlers
  have captured; \<open>uid\<close> stands for the identity of the object.\<close>

record utterance =
  uid :: nat
  uChapterIdx :: int
  uChunkIdx :: int
  uCharIdx :: int

record hook_state =
  isSpeaking :: bool
  isPaused :: bool
  currentChapterIndex :: int
  currentChunkIndex :: int
  currentCharIndex :: int
  error :: "string option"
  isProgressLoading :: bool
  sleepTimer :: sleep_timer
  utteranceRef :: "utterance option"
  watchdogTimerRef :: "utterance option"
  nextUid :: nat

text \<open>The result of a callback: it returned, or it threw and nothing caught the error;
  either way with the state as the callback left it.\<close>

datatype outcome = Done hook_state | Uncaught js_error hook_state

fun stateOf :: "outcome \<Rightarrow> hook_state" where
  "stateOf (Done s) = s"
| "stateOf (Uncaught e s) = s"

datatype playback_status = Idle | Speaking | Paused

definition status :: "hook_state \<Rightarrow> playback_status" where
  "status s = (if isSpeaking s then Speaking else if isPaused s then Paused else Idle)"

definition position :: "hook_state \<Rightarrow> position" where
  "position s = (currentChapterIndex s, currentChunkIndex s, currentCharIndex s)"

text \<open>The values of \<open>useState\<close> at the first render.\<close>

definition initialState :: hook_state where
  "initialState =
     \<lparr>isSpeaking = False, isPaused = False, currentChapterIndex = 0, currentChunkIndex = 0,
      currentCharIndex = 0, error = None, isProgressLoading = True, sleepTimer = NoTimer,
      utteranceRef = None, watchdogTimerRef = None, nextUid = 0\<rparr>"

definition clearWatchdog :: "hook_state \<Rightarrow> hook_state" where
  "clearWatchdog s = s\<lparr>watchdogTimerRef := None\<rparr>"

definition pause :: "hook_state \<Rightarrow> hook_state" where
  "pause s = (clearWatchdog s)\<lparr>isSpeaking := False, isPaused := True\<rparr>"

text \<open>\<open>chapterChunks[chapterIdx]?.[chunkIdx]?.substring(charIdx)\<close>; a negative start
  counts as 0.\<close>

definition textToSpeak :: "chapter_chunks \<Rightarrow> int \<Rightarrow> int \<Rightarrow> int \<Rightarrow> string option" where
  "textToSpeak cs chapterIdx chunkIdx charIdx =
     (case jsIndex cs chapterIdx of
        None \<Rightarrow> None
      | Some chapter \<Rightarrow>
          (case jsIndex chapter chunkIdx of
             None \<Rightarrow> None
           | Some c \<Rightarrow> Some (drop (nat charIdx) c)))"

text \<open>\<open>speak\<close>: without a text (\<open>undefined\<close> or empty) it stops; otherwise it makes the
  utterance, hands it to the engine and arms the watchdog, whose callback holds the
  utterance.\<close>

definition speak :: "chapter_chunks \<Rightarrow> int \<Rightarrow> int \<Rightarrow> int \<Rightarrow> hook_state \<Rightarrow> hook_state" where
  "speak cs chapterIdx chunkIdx charIdx s =
     (let s1 = clearWatchdog s in
      case textToSpeak cs chapterIdx chunkIdx charIdx of
        None \<Rightarrow> s1\<lparr>isSpeaking := False\<rparr>
      | Some t \<Rightarrow>
          if t = [] then s1\<lparr>isSpeaking := False\<rparr>
          else
            (let u = \<lparr>uid = nextUid s1, uChapterIdx = chapterIdx, uChunkIdx = chunkIdx,
                      uCharIdx = charIdx\<rparr>
             in s1\<lparr>utteranceRef := Some u, watchdogTimerRef := Some u,
                   nextUid := Suc (nextUid s1)\<rparr>))"

text \<open>\<open>utterance.onboundary\<close>, for an event with the given name and \<open>charIndex\<close>.\<close>

definition onboundary :: "utterance \<Rightarrow> string \<Rightarrow> int \<Rightarrow> hook_state \<Rightarrow> hook_state" where
  "onboundary u name eventCharIndex s =
     (if name = ''word'' then s\<lparr>currentCharIndex := uCharIdx u + eventCharIndex\<rparr> else s)"

text \<open>\<open>utterance.onend\<close> of the utterance \<open>u\<close>.\<close>

definition onend :: "chapter_chunks \<Rightarrow> utterance \<Rightarrow> hook_state \<Rightarrow> outcome" where
  "onend cs u s =
     (let s1 = clearWatchdog s in
      if \<not> isSpeaking s then Done s1
      else
        (let nextChunk = uChunkIdx u + 1 in
         case jsIndex cs (uChapterIdx u) of
           None \<Rightarrow> Uncaught TypeError s1
         | Some chapter \<Rightarrow>
             if nextChunk < int (length chapter) then
               Done (speak cs (uChapterIdx u) nextChunk 0
                       (s1\<lparr>currentChunkIndex := nextChunk, currentCharIndex := 0\<rparr>))
             else if sleepTimer s = EndOfChapter then
               Done ((pause s1)\<lparr>sleepTimer := NoTimer\<rparr>)
             else
               (let nextChapter = uChapterIdx u + 1 in
                if nextChapter < int (length cs) then
                  Done (speak cs nextChapter 0 0
                          (s1\<lparr>currentChapterIndex := nextChapter, currentChunkIndex := 0,
                               currentCharIndex := 0\<rparr>))
                else Done (s1\<lparr>isSpeaking := False\<rparr>))))"

text \<open>The message is the same for every kind of error. In the file of the first version
  the accented letter of the message is the two code units \<open>0xC3 0xB3\<close>; the version with the
  service worker channel has the one unit \<open>0xF3\<close> there.\<close>

definition errorMessage :: string where
  "errorMessage = ''Ocurri'' @ [CHR 0xC3, CHR 0xB3] @ '' un error al leer el texto.''"

text \<open>\<open>utterance.onerror\<close>, for an error event of the given kind (\<open>event.error\<close>).\<close>

definition onerror :: "string \<Rightarrow> hook_state \<Rightarrow> hook_state" where
  "onerror kind s = (clearWatchdog (s\<lparr>error := Some errorMessage\<rparr>))\<lparr>isSpeaking := False\<rparr>"

text \<open>The watchdog of the first version, an interval of two seconds; \<open>stalled\<close> is the
  test \<open>Date.now() - lastBoundaryTimeRef.current > 4000\<close> at that moment.\<close>

definition watchdogInterval :: "chapter_chunks \<Rightarrow> bool \<Rightarrow> utterance \<Rightarrow> hook_state \<Rightarrow> outcome" where
  "watchdogInterval cs stalled u s = (if stalled then onend cs u s else Done s)"

text \<open>The watchdog of the version with the service worker channel: \<open>speak\<close> arms a
  timeout of \<open>Math.max(5000, estimatedDurationMs + 10000)\<close> milliseconds, with
  \<open>estimatedDurationMs = (textToSpeak.length / (15 * playbackRate)) * 1000\<close>. The delay is
  taken in exact arithmetic. At rate 0 the code computes \<open>Infinity\<close>, which is no number of
  the model: there the delay is \<open>None\<close>.\<close>

definition estimatedDurationMs :: "nat \<Rightarrow> real \<Rightarrow> real option" where
  "estimatedDurationMs len playbackRate =
     (if playbackRate = 0 then None else Some ((real len / (15 * playbackRate)) * 1000))"

definition watchdogTimeoutMs :: "nat \<Rightarrow> real \<Rightarrow> real option" where
  "watchdogTimeoutMs len playbackRate =
     map_option (\<lambda>estimated. max 5000 (estimated + 10000)) (estimatedDurationMs len playbackRate)"


text \<open>The callback of the timeout; \<open>engineSpeaking\<close> is \<open>window.speechSynthesis.speaking\<close>
  when it runs.\<close>

definition watchdogTimeout :: "chapter_chunks \<Rightarrow> bool \<Rightarrow> utterance \<Rightarrow> hook_state \<Rightarrow> outcome" where
  "watchdogTimeout cs engineSpeaking u s =
     (if utteranceRef s = Some u \<and> engineSpeaking then onend cs u s else Done s)"


text \<open>The effect on \<open>[isSpeaking, isPaused]\<close>.\<close>

definition cleanupEffect :: "hook_state \<Rightarrow> hook_state" where
  "cleanupEffect s =
     (if \<not> isSpeaking s \<and> \<not> isPaused s then (clearWatchdog s)\<lparr>utteranceRef := None\<rparr> else s)"

definition play :: "int \<Rightarrow> int \<Rightarrow> hook_state \<Rightarrow> hook_state" where
  "play chapterIdx chunkIdx s =
     s\<lparr>error := None, currentChapterIndex := chapterIdx, currentChunkIndex := chunkIdx,
       currentCharIndex := 0, isPaused := False, isSpeaking := True\<rparr>"

text \<open>The callback that \<open>play\<close>, \<open>jumpToChapter\<close> and \<open>skip\<close> pass to \<open>setTimeout\<close>.\<close>

definition speakAfterDelay ::
  "chapter_chunks \<Rightarrow> int \<Rightarrow> int \<Rightarrow> int \<Rightarrow> hook_state \<Rightarrow> hook_state" where
  "speakAfterDelay cs chapterIdx chunkIdx charIdx s =
     (if isSpeaking s then speak cs chapterIdx chunkIdx charIdx s else s)"

definition resume :: "hook_state \<Rightarrow> hook_state" where
  "resume s = s\<lparr>error := None, isSpeaking := True, isPaused := False\<rparr>"

definition jumpToChapter :: "int \<Rightarrow> bool \<Rightarrow> hook_state \<Rightarrow> hook_state" where
  "jumpToChapter chapterIdx playOnJump s =
     s\<lparr>currentChapterIndex := chapterIdx, currentChunkIndex := 0, currentCharIndex := 0,
       isPaused := False, isSpeaking := playOnJump\<rparr>"

definition handleNextChapter :: "chapter_chunks \<Rightarrow> hook_state \<Rightarrow> hook_state" where
  "handleNextChapter cs s =
     (if currentChapterIndex s < int (length cs) - 1
      then jumpToChapter (currentChapterIndex s + 1) (isSpeaking s \<or> isPaused s) s else s)"

definition handlePrevChapter :: "hook_state \<Rightarrow> hook_state" where
  "handlePrevChapter s =
     (if currentChapterIndex s > 0
      then jumpToChapter (currentChapterIndex s - 1) (isSpeaking s \<or> isPaused s) s else s)"

text \<open>\<open>skip\<close>, from the character offset \<open>Math.round(seconds * 15 * playbackRate)\<close> on.
  The loops run before any state is set, so an error thrown there leaves the state.\<close>

definition skip :: "chapter_chunks \<Rightarrow> int \<Rightarrow> hook_state \<Rightarrow> outcome" where
  "skip cs charOffset s =
     (if \<not> isSpeaking s \<and> \<not> isPaused s then Done s
      else
        (case seek cs (position s) charOffset of
           Inl e \<Rightarrow> Uncaught e s
         | Inr (chap, chunk, ch) \<Rightarrow>
             (let s1 = s\<lparr>currentChapterIndex := chap, currentChunkIndex := chunk,
                         currentCharIndex := ch\<rparr>
              in Done (if isPaused s then s1\<lparr>isPaused := False, isSpeaking := True\<rparr> else s1))))"

subsection \<open>Sleep timer\<close>

text \<open>The effect on \<open>[sleepTimer, isSpeaking, pause]\<close>: it pauses at zero, and otherwise
  leaves an interval of one second running until its next run.\<close>

definition sleepTimerEffect :: "hook_state \<Rightarrow> hook_state" where
  "sleepTimerEffect s =
     (case sleepTimer s of
        Seconds n \<Rightarrow>
          if \<not> isSpeaking s then s
          else if n \<le> 0 then (pause s)\<lparr>sleepTimer := NoTimer\<rparr>
          else s
      | _ \<Rightarrow> s)"

definition sleepIntervalRunning :: "hook_state \<Rightarrow> bool" where
  "sleepIntervalRunning s =
     (case sleepTimer s of Seconds n \<Rightarrow> isSpeaking s \<and> 0 < n | _ \<Rightarrow> False)"

text \<open>The callback of the interval: \<open>setSleepTimer(t => typeof t === 'number' ? t - 1 : t)\<close>.\<close>

definition sleepTimerCallback :: "hook_state \<Rightarrow> hook_state" where
  "sleepTimerCallback s =
     s\<lparr>sleepTimer := (case sleepTimer s of Seconds t \<Rightarrow> Seconds (t - 1) | t \<Rightarrow> t)\<rparr>"

text \<open>One second passes: if the interval runs, its callback, and then the effect again,
  since \<open>sleepTimer\<close> has changed.\<close>

definition sleepTick :: "hook_state \<Rightarrow> hook_state" where
  "sleepTick s = (if sleepIntervalRunning s then sleepTimerEffect (sleepTimerCallback s) else s)"

subsection \<open>Persisted progress\<close>

datatype json =
  JNull | JBool bool | JNum int | JStr string | JArr "json list" | JObj "(string \<times> json) list"

text \<open>An item of \<open>localStorage\<close> as \<open>JSON.parse\<close> sees it: a text it rejects (the empty
  string among them), or the value it returns. \<open>JSON.stringify\<close> of an object of integers
  gives a text that parses to that object.\<close>

datatype item = Malformed | Parsed json

type_synonym storage = "string \<rightharpoonup> item"

definition progressKey :: "string option \<Rightarrow> string option" where
  "progressKey filename = map_option (\<lambda>f. ''lukpaleelibros-progress-'' @ f) filename"

fun truthy :: "json \<Rightarrow> bool" where
  "truthy JNull = False"
| "truthy (JBool b) = b"
| "truthy (JNum n) = (n \<noteq> 0)"
| "truthy (JStr s) = (s \<noteq> [])"
| "truthy (JArr xs) = True"
| "truthy (JObj fs) = True"

text \<open>\<open>v.name\<close> for one of the two names read here: a member of an object (the last one
  of that name), \<open>undefined\<close> on anything else.\<close>

fun getProp :: "json \<Rightarrow> string \<Rightarrow> json option" where
  "getProp (JObj fs) name = map_of (rev fs) name"
| "getProp _ name = None"

text \<open>The effect that saves: \<open>JSON.stringify({currentChapterIndex, currentChunkIndex})\<close>.\<close>

definition progressRecord :: "hook_state \<Rightarrow> json" where
  "progressRecord s =
     JObj [(''currentChapterIndex'', JNum (currentChapterIndex s)),
           (''currentChunkIndex'', JNum (currentChunkIndex s))]"

definition saveProgressEffect :: "string option \<Rightarrow> hook_state \<Rightarrow> storage \<Rightarrow> storage" where
  "saveProgressEffect key s st =
     (case key of
        Some k \<Rightarrow> if isSpeaking s \<or> isPaused s then st(k \<mapsto> Parsed (progressRecord s)) else st
      | None \<Rightarrow> st)"

text \<open>The effect that loads. The setters take what the item holds; the state of the
  model holds numbers only, so the result is \<open>None\<close> where \<open>setCurrentChunkIndex\<close> is given
  something that is neither a number nor \<open>null\<close> nor absent.\<close>

definition loadProgressEffect :: "string option \<Rightarrow> storage \<Rightarrow> hook_state \<Rightarrow> hook_state option" where
  "loadProgressEffect key st s =
     (case key of
        None \<Rightarrow> Some (s\<lparr>isProgressLoading := False\<rparr>)
      | Some k \<Rightarrow>
          (case st k of
             None \<Rightarrow> Some (s\<lparr>isProgressLoading := False\<rparr>)
           | Some Malformed \<Rightarrow> Some (s\<lparr>isProgressLoading := False\<rparr>)
           | Some (Parsed progress) \<Rightarrow>
               (case (truthy progress, getProp progress ''currentChapterIndex'') of
                  (True, Some (JNum n)) \<Rightarrow>
                    (case getProp progress ''currentChunkIndex'' of
                       None \<Rightarrow> Some (s\<lparr>currentChapterIndex := n, currentChunkIndex := 0,
                                       isProgressLoading := False\<rparr>)
                     | Some JNull \<Rightarrow> Some (s\<lparr>currentChapterIndex := n, currentChunkIndex := 0,
                                             isProgressLoading := False\<rparr>)
                     | Some (JNum k') \<Rightarrow> Some (s\<lparr>currentChapterIndex := n, currentChunkIndex := k',
                                                 isProgressLoading := False\<rparr>)
                     | Some _ \<Rightarrow> None)
                | _ \<Rightarrow> Some (s\<lparr>isProgressLoading := False\<rparr>))))"


subsection \<open>The error handler and the chapters effect of the other version\<close>

text \<open>\<open>cancel\<close> saves the progress, so these take the storage too.\<close>

definition saveProgress_v2 :: "string option \<Rightarrow> hook_state \<Rightarrow> storage \<Rightarrow> storage" where
  "saveProgress_v2 key s st =
     (case key of Some k \<Rightarrow> st(k \<mapsto> Parsed (progressRecord s)) | None \<Rightarrow> st)"

definition cancel_v2 :: "string option \<Rightarrow> hook_state \<times> storage \<Rightarrow> hook_state \<times> storage" where
  "cancel_v2 key x =
     (case x of (s, st) \<Rightarrow>
        (s\<lparr>watchdogTimerRef := None, utteranceRef := None, isSpeaking := False,
           isPaused := False, currentCharIndex := 0\<rparr>,
         saveProgress_v2 key s st))"

definition errorMessage_v2 :: "string \<Rightarrow> string" where
  "errorMessage_v2 kind =
     ''Ocurri'' @ [CHR 0xF3] @ '' un error en la s'' @ [CHR 0xED] @ ''ntesis de voz: '' @ kind"

definition onerror_v2 ::
  "string option \<Rightarrow> string \<Rightarrow> hook_state \<times> storage \<Rightarrow> hook_state \<times> storage" where
  "onerror_v2 key kind x =
     (if kind = ''interrupted'' \<or> kind = ''canceled'' then x
      else (case x of (s, st) \<Rightarrow> cancel_v2 key (s\<lparr>error := Some (errorMessage_v2 kind)\<rparr>, st)))"

definition chaptersEffect_v2 :: "string list \<Rightarrow> hook_state \<Rightarrow> hook_state" where
  "chaptersEffect_v2 chapters s =
     s\<lparr>currentChapterIndex := min (currentChapterIndex s) (int (length chapters) - 1),
       currentChunkIndex := (if length chapters > 0 then currentChunkIndex s else 0),
       currentCharIndex := 0\<rparr>"

subsection \<open>Events\<close>

text \<open>Everything that changes the state: the operations of the hook, the callbacks of the
  engine and of the timers, and the effects.\<close>

datatype event =
    Play int int
  | Pause
  | Resume
  | JumpToChapter int bool
  | NextChapter
  | PrevChapter
  | Skip int
  | SpeakAfterDelay int int int
  | EngineBoundary utterance string int
  | EngineEnd utterance
  | EngineError string
  | WatchdogInterval bool utterance
  | WatchdogTimeout bool utterance
  | SetSleepTimer sleep_timer
  | SleepTimerExpiry
  | SleepSecond
  | Cleanup

fun step :: "chapter_chunks \<Rightarrow> event \<Rightarrow> hook_state \<Rightarrow> hook_state" where
  "step cs (Play chapterIdx chunkIdx) s = play chapterIdx chunkIdx s"
| "step cs Pause s = pause s"
| "step cs Resume s = resume s"
| "step cs (JumpToChapter chapterIdx playOnJump) s = jumpToChapter chapterIdx playOnJump s"
| "step cs NextChapter s = handleNextChapter cs s"
| "step cs PrevChapter s = handlePrevChapter s"
| "step cs (Skip charOffset) s = stateOf (skip cs charOffset s)"
| "step cs (SpeakAfterDelay chapterIdx chunkIdx charIdx) s =
     speakAfterDelay cs chapterIdx chunkIdx charIdx s"
| "step cs (EngineBoundary u name eventCharIndex) s = onboundary u name eventCharIndex s"
| "step cs (EngineEnd u) s = stateOf (onend cs u s)"
| "step cs (EngineError kind) s = onerror kind s"
| "step cs (WatchdogInterval stalled u) s = stateOf (watchdogInterval cs stalled u s)"
| "step cs (WatchdogTimeout engineSpeaking u) s = stateOf (watchdogTimeout cs engineSpeaking u s)"
| "step cs (SetSleepTimer t) s = s\<lparr>sleepTimer := t\<rparr>"
| "step cs SleepTimerExpiry s = sleepTimerEffect s"
| "step cs SleepSecond s = sleepTick s"
| "step cs Cleanup s = cleanupEffect s"

fun run :: "chapter_chunks \<Rightarrow> event list \<Rightarrow> hook_state \<Rightarrow> hook_state" where
  "run cs [] s = s"
| "run cs (ev # evs) s = run cs evs (step cs ev s)"

text \<open>The two flags are not both set.\<close>

definition exclusive :: "hook_state \<Rightarrow> bool" where
  "exclusive s \<longleftrightarrow> \<not> (isSpeaking s \<and> isPaused s)"

section \<open>Properties of the chunker\<close>

text \<open>The loop cuts the text into consecutive pieces (\<open>concat_rawPieces\<close>), each of at most
  \<open>CHUNK_CHAR_LIMIT + 1\<close> characters, trims each and drops the empty ones. So every chunk is
  non-empty and trimmed, and the chunks keep the characters of the text that are not
  whitespace, in order.\<close>

lemma chunkLoop_rawPieces:
  "chunkLoop t i chunks = chunks @ filter (\<lambda>c. c \<noteq> []) (map trim (rawPieces t i))"
proof (induction t i chunks rule: chunkLoop.induct)
  case (1 t i chunks)
  show ?case
  proof (cases "i < length t")
    case True
    then show ?thesis
      using "1.IH" [OF True refl refl]
      by (subst chunkLoop.simps, subst rawPieces.simps) (simp add: Let_def)
  next
    case False
    then show ?thesis
      by (subst chunkLoop.simps, subst rawPieces.simps) simp
  qed
qed

lemma substring_take_drop:
  "a \<le> b \<Longrightarrow> substring s a b = take (b - a) (drop a s)"
  by (auto simp: substring_def Let_def min_def max_def)

lemma concat_rawPieces: "concat (rawPieces t i) = drop i t"
proof (induction t i rule: rawPieces.induct)
  case (1 t i)
  show ?case
  proof (cases "i < length t")
    case True
    have le: "i \<le> chunkEndAt t i" using chunkEndAt_gt [of i t] by simp
    have "concat (rawPieces t i) =
        take (chunkEndAt t i - i) (drop i t) @ drop (chunkEndAt t i) t"
      using "1.IH" [OF True] True
      by (subst rawPieces.simps) (simp add: substring_take_drop [OF le])
    also have "drop (chunkEndAt t i) t = drop (chunkEndAt t i - i) (drop i t)"
      using le by simp
    finally show ?thesis by (simp only: append_take_drop_id)
  next
    case False
    then show ?thesis by (subst rawPieces.simps) simp
  qed
qed

lemma lastIndexOf_le: "lastIndexOf s c k \<le> int k"
  by (induction k) auto

lemma chunkEndAt_le: "chunkEndAt t i \<le> i + CHUNK_CHAR_LIMIT + 1"
  using lastIndexOf_le [of t "CHR ''.''" "i + CHUNK_CHAR_LIMIT"]
    lastIndexOf_le [of t "CHR ''?''" "i + CHUNK_CHAR_LIMIT"]
    lastIndexOf_le [of t "CHR ''!''" "i + CHUNK_CHAR_LIMIT"]
  by (auto simp: chunkEndAt_def Let_def)

lemma length_rawPieces:
  "p \<in> set (rawPieces t i) \<Longrightarrow> length p \<le> CHUNK_CHAR_LIMIT + 1"
proof (induction t i rule: rawPieces.induct)
  case (1 t i)
  show ?case
  proof (cases "i < length t")
    case True
    have le: "i \<le> chunkEndAt t i" using chunkEndAt_gt [of i t] by simp
    from "1.prems" True
    consider "p = substring t i (chunkEndAt t i)"
      | "p \<in> set (rawPieces t (chunkEndAt t i))"
      by (subst (asm) rawPieces.simps) auto
    then show ?thesis
    proof cases
      case 1
      then show ?thesis
        using chunkEndAt_le [of t i] by (simp add: substring_take_drop [OF le])
    next
      case 2
      then show ?thesis using "1.IH" [OF True] by simp
    qed
  next
    case False
    with "1.prems" show ?thesis by (subst (asm) rawPieces.simps) simp
  qed
qed

lemma dropWhile_hd_id: "xs = [] \<or> \<not> P (hd xs) \<Longrightarrow> dropWhile P xs = xs"
  by (cases xs) auto

lemma trim_ends:
  "trim s = [] \<or> (\<not> isWhiteSpace (hd (trim s)) \<and> \<not> isWhiteSpace (last (trim s)))"
proof (cases "trim s = []")
  case True
  then show ?thesis by simp
next
  case False
  let ?y = "dropWhile isWhiteSpace s"
  let ?z = "dropWhile isWhiteSpace (rev ?y)"
  have r: "trim s = rev ?z" by (simp add: trim_def)
  with False have z: "?z \<noteq> []" by simp
  then have hz: "\<not> isWhiteSpace (hd ?z)" by (rule hd_dropWhile)
  have y: "?y = rev ?z @ rev (takeWhile isWhiteSpace (rev ?y))"
    by (metis rev_append rev_rev_ident takeWhile_dropWhile_id)
  have "hd ?y = hd (rev ?z)" using z by (subst y) simp
  moreover have "?y \<noteq> []" using z by (cases "?y") simp_all
  then have "\<not> isWhiteSpace (hd ?y)" by (rule hd_dropWhile)
  ultimately have "\<not> isWhiteSpace (hd (trim s))" by (simp add: r)
  moreover have "last (trim s) = hd ?z" using z by (simp add: r last_rev)
  ultimately show ?thesis using hz by simp
qed

lemma trim_idem: "trim (trim s) = trim s"
proof -
  have a: "dropWhile isWhiteSpace (trim s) = trim s"
    using trim_ends [of s] by (intro dropWhile_hd_id) auto
  have "rev (trim s) = [] \<or> \<not> isWhiteSpace (hd (rev (trim s)))"
    using trim_ends [of s] by (auto simp: hd_rev)
  then have b: "dropWhile isWhiteSpace (rev (trim s)) = rev (trim s)"
    by (rule dropWhile_hd_id)
  show ?thesis
    by (subst (1) trim_def) (simp only: a b rev_rev_ident)
qed

lemma filter_dropWhile_neg: "filter (\<lambda>c. \<not> P c) (dropWhile P xs) = filter (\<lambda>c. \<not> P c) xs"
  by (induction xs) auto

lemma filter_trim:
  "filter (\<lambda>c. \<not> isWhiteSpace c) (trim s) = filter (\<lambda>c. \<not> isWhiteSpace c) s"
  by (simp add: trim_def filter_dropWhile_neg flip: rev_filter)

lemma filter_trim_Nil: "trim s = [] \<Longrightarrow> filter (\<lambda>c. \<not> isWhiteSpace c) s = []"
  using filter_trim [of s] by simp

lemma filter_concat_trim:
  "filter (\<lambda>c. \<not> isWhiteSpace c) (concat (filter (\<lambda>c. c \<noteq> []) (map trim ps))) =
   filter (\<lambda>c. \<not> isWhiteSpace c) (concat ps)"
  by (induction ps) (auto simp: filter_trim filter_trim_Nil)

lemma chunkText_content:
  "filter (\<lambda>c. \<not> isWhiteSpace c) (concat (chunkText t)) = filter (\<lambda>c. \<not> isWhiteSpace c) t"
  by (simp add: chunkText_def chunkLoop_rawPieces filter_concat_trim concat_rawPieces)

lemma chunkText_trimmed: "c \<in> set (chunkText t) \<Longrightarrow> c \<noteq> [] \<and> trim c = c"
  by (auto simp: chunkText_def chunkLoop_rawPieces trim_idem split: if_splits)

lemma length_trim: "length (trim s) \<le> length s"
proof -
  have "length (trim s) \<le> length (dropWhile isWhiteSpace s)"
    unfolding trim_def length_rev
    by (rule order_trans [OF length_dropWhile_le]) simp
  also have "\<dots> \<le> length s" by (rule length_dropWhile_le)
  finally show ?thesis .
qed

lemma chunkText_length: "c \<in> set (chunkText t) \<Longrightarrow> length c \<le> CHUNK_CHAR_LIMIT + 1"
  using length_rawPieces length_trim
  by (fastforce simp: chunkText_def chunkLoop_rawPieces split: if_splits intro: order_trans)

text \<open>A chapter with a character that is not whitespace has a chunk, so the chapters of
  the parser, which are paragraphs with text, give chunks as \<open>chunked\<close> describes.\<close>

lemma chunkText_nonempty:
  assumes "filter (\<lambda>c. \<not> isWhiteSpace c) t \<noteq> []"
  shows "chunkText t \<noteq> []"
proof
  assume "chunkText t = []"
  then have "filter (\<lambda>c. \<not> isWhiteSpace c) (concat (chunkText t)) = []" by simp
  with assms show False by (simp only: chunkText_content)
qed

lemma chunked_chunkText:
  assumes "list_all (\<lambda>t. filter (\<lambda>c. \<not> isWhiteSpace c) t \<noteq> []) chapters"
  shows "chunked (map chunkText chapters)"
  using assms chunkText_nonempty chunkText_trimmed
  by (auto simp: chunked_def list_all_iff)

text \<open>
  Claim C1, the bound of 250. The search for a sentence end starts at the index
  \<open>i + 250\<close> itself (\<open>lastIndexOf\<close> includes its start), and the cut is one past the
  terminator found: a text of 250 letters, a full stop and one more letter gives a
  first chunk of 251 characters, one above \<open>CHUNK_CHAR_LIMIT\<close>, with nothing to trim.
\<close>

theorem chunkText_over_limit:
  "chunkText (replicate 250 (CHR ''a'') @ ''.b'') = [replicate 250 (CHR ''a'') @ ''.'', ''b'']
   \<and> length (hd (chunkText (replicate 250 (CHR ''a'') @ ''.b''))) = CHUNK_CHAR_LIMIT + 1"
  by code_simp

section \<open>Properties of the seek arithmetic\<close>

lemma jsIndex_Some: "0 \<le> i \<Longrightarrow> i < int (length xs) \<Longrightarrow> jsIndex xs i = Some (xs ! nat i)"
  by (simp add: jsIndex_def)

lemma validIndex_chapter: "validIndex cs chap chunk \<Longrightarrow> jsIndex cs chap = Some (cs ! nat chap)"
  by (simp add: validIndex_def jsIndex_def)

lemma validIndex_chunk:
  "validIndex cs chap chunk \<Longrightarrow> jsIndex (cs ! nat chap) chunk = Some (cs ! nat chap ! nat chunk)"
  by (simp add: validIndex_def jsIndex_def)

lemma validIndex_length:
  "validIndex cs chap chunk \<Longrightarrow> chunkLengthOr0 cs chap chunk = chunkLen cs chap chunk"
  by (simp add: chunkLengthOr0_def validIndex_chapter validIndex_chunk chunkLen_def)

lemma chunked_chapter: "chunked cs \<Longrightarrow> i < length cs \<Longrightarrow> cs ! i \<noteq> []"
  by (simp add: chunked_def list_all_length)

lemma chunked_chunk: "chunked cs \<Longrightarrow> i < length cs \<Longrightarrow> j < length (cs ! i) \<Longrightarrow> cs ! i ! j \<noteq> []"
  by (simp add: chunked_def list_all_length)

lemma validIndex_nat:
  "validIndex cs chap chunk \<Longrightarrow> nat chap < length cs \<and> nat chunk < length (cs ! nat chap)"
  unfolding validIndex_def by linarith

lemma chunkLen_pos:
  assumes "chunked cs" "validIndex cs chap chunk"
  shows "0 < chunkLen cs chap chunk"
proof -
  have "cs ! nat chap ! nat chunk \<noteq> []"
    using validIndex_nat [OF assms(2)] chunked_chunk [OF assms(1)] by blast
  then show ?thesis by (simp add: chunkLen_def)
qed

lemma prev_chapter_nonempty:
  assumes "chunked cs" "validIndex cs chap chunk" "0 < chap"
  shows "cs ! nat (chap - 1) \<noteq> []"
proof -
  have "nat (chap - 1) < length cs" using assms(2,3) unfolding validIndex_def by linarith
  then show ?thesis by (rule chunked_chapter [OF assms(1)])
qed

lemma seekBackward_stop: "0 \<le> ch \<Longrightarrow> seekBackward cs chap chunk ch = Inr (chap, chunk, ch)"
  by (subst seekBackward.simps) simp

lemma seekForward_stop:
  "ch < chunkLengthOr0 cs chap chunk \<Longrightarrow> seekForward cs chap chunk ch = Inr (chap, chunk, ch)"
  by (subst seekForward.simps) simp

text \<open>One round of the first loop, on valid indices.\<close>

lemma seekBackward_prev_chunk:
  assumes "validIndex cs chap chunk" "ch < 0" "0 < chunk"
  shows "seekBackward cs chap chunk ch =
         seekBackward cs chap (chunk - 1) (ch + chunkLen cs chap (chunk - 1))"
  using assms
  by (subst seekBackward.simps) (simp add: Let_def validIndex_def jsIndex_def chunkLen_def)

lemma seekBackward_prev_chapter:
  assumes "chunked cs" "validIndex cs chap 0" "ch < 0" "0 < chap"
  shows "seekBackward cs chap 0 ch =
         seekBackward cs (chap - 1) (int (length (cs ! nat (chap - 1))) - 1)
           (ch + chunkLen cs (chap - 1) (int (length (cs ! nat (chap - 1))) - 1))"
  using assms(2-) prev_chapter_nonempty [OF assms(1,2,4)]
  by (subst seekBackward.simps) (simp add: Let_def validIndex_def jsIndex_def chunkLen_def)

lemma seekBackward_clamp:
  assumes "ch < 0"
  shows "seekBackward cs 0 0 ch = Inr (0, 0, 0)"
  using assms by (subst seekBackward.simps) simp

lemma validIndex_prev_chunk: "validIndex cs chap chunk \<Longrightarrow> 0 < chunk \<Longrightarrow> validIndex cs chap (chunk - 1)"
  by (simp add: validIndex_def)

lemma validIndex_prev_chapter:
  "chunked cs \<Longrightarrow> validIndex cs chap 0 \<Longrightarrow> 0 < chap \<Longrightarrow>
   validIndex cs (chap - 1) (int (length (cs ! nat (chap - 1))) - 1)"
  using prev_chapter_nonempty [of cs chap 0]
  by (simp add: validIndex_def)

lemma seekBackward_normalized:
  "chunked cs \<Longrightarrow> validIndex cs chap chunk \<Longrightarrow> ch < chunkLen cs chap chunk \<Longrightarrow>
   \<exists>p. seekBackward cs chap chunk ch = Inr p \<and> normalized cs p"
proof (induction cs chap chunk ch rule: seekBackward.induct)
  case (1 cs chap chunk ch)
  note ck = \<open>chunked cs\<close> and vi = \<open>validIndex cs chap chunk\<close>
  show ?case
  proof (cases "ch < 0")
    case False
    then have "seekBackward cs chap chunk ch = Inr (chap, chunk, ch)"
      by (simp add: seekBackward_stop)
    moreover have "normalized cs (chap, chunk, ch)"
      using False vi "1.prems"(3) by (simp add: normalized_def)
    ultimately show ?thesis by simp
  next
    case neg: True
    show ?thesis
    proof (cases "0 < chunk")
      case True
      let ?b = "chunk - 1"
      have vb: "validIndex cs chap ?b" using vi True by (rule validIndex_prev_chunk)
      have "\<exists>p. seekBackward cs chap ?b (ch + int (length (cs ! nat chap ! nat ?b))) = Inr p
                \<and> normalized cs p"
      proof (rule "1.IH"(2) [OF neg refl _ validIndex_chapter [OF vi] validIndex_chunk [OF vb] ck vb])
        show "\<not> chunk - 1 < 0" using True by simp
        show "ch + int (length (cs ! nat chap ! nat ?b)) < chunkLen cs chap ?b"
          using neg by (simp add: chunkLen_def)
      qed
      then show ?thesis
        by (simp add: seekBackward_prev_chunk [OF vi neg True] chunkLen_def)
    next
      case False
      with vi have c0: "chunk = 0" by (simp add: validIndex_def)
      show ?thesis
      proof (cases "0 < chap")
        case True
        let ?a = "chap - 1"
        let ?b = "int (length (cs ! nat ?a)) - 1"
        have vi0: "validIndex cs chap 0" using vi c0 by simp
        have vb: "validIndex cs ?a ?b" using ck vi0 True by (rule validIndex_prev_chapter)
        have "\<exists>p. seekBackward cs ?a ?b (ch + int (length (cs ! nat ?a ! nat ?b))) = Inr p
                  \<and> normalized cs p"
        proof (rule "1.IH"(1) [OF neg refl _ refl _ validIndex_chapter [OF vb] refl
                validIndex_chunk [OF vb] ck vb])
          show "chunk - 1 < 0" using c0 by simp
          show "\<not> chap - 1 < 0" using True by simp
          show "ch + int (length (cs ! nat ?a ! nat ?b)) < chunkLen cs ?a ?b"
            using neg by (simp add: chunkLen_def)
        qed
        then show ?thesis
          by (simp add: c0 seekBackward_prev_chapter [OF ck vi0 neg True] chunkLen_def)
      next
        case False
        with vi have a0: "chap = 0" by (simp add: validIndex_def)
        have "normalized cs (0, 0, 0)"
          using vi chunkLen_pos [OF ck vi] by (simp add: normalized_def a0 c0)
        then show ?thesis by (simp add: a0 c0 seekBackward_clamp [OF neg])
      qed
    qed
  qed
qed

lemma seekForward_next_chunk:
  assumes "validIndex cs chap chunk" "chunkLen cs chap chunk \<le> ch"
    "chunk + 1 < int (length (cs ! nat chap))"
  shows "seekForward cs chap chunk ch = seekForward cs chap (chunk + 1) (ch - chunkLen cs chap chunk)"
  using assms(2,3)
  by (subst seekForward.simps)
     (simp add: validIndex_length [OF assms(1)] validIndex_chapter [OF assms(1)]
        validIndex_chunk [OF assms(1)] Let_def chunkLen_def)

lemma seekForward_next_chapter:
  assumes "validIndex cs chap chunk" "chunkLen cs chap chunk \<le> ch"
    "\<not> chunk + 1 < int (length (cs ! nat chap))" "chap + 1 < int (length cs)"
  shows "seekForward cs chap chunk ch = seekForward cs (chap + 1) 0 (ch - chunkLen cs chap chunk)"
  using assms(2,3,4)
  by (subst seekForward.simps)
     (simp add: validIndex_length [OF assms(1)] validIndex_chapter [OF assms(1)]
        validIndex_chunk [OF assms(1)] Let_def chunkLen_def)

lemma last_index:
  assumes "validIndex cs chap chunk"
    "\<not> chunk + 1 < int (length (cs ! nat chap))" "\<not> chap + 1 < int (length cs)"
  shows "chap = int (length cs) - 1" "chunk = int (length (cs ! nat chap)) - 1"
  using assms unfolding validIndex_def by linarith+

lemma seekForward_clamp:
  assumes "validIndex cs chap chunk" "chunkLen cs chap chunk \<le> ch"
    "\<not> chunk + 1 < int (length (cs ! nat chap))" "\<not> chap + 1 < int (length cs)"
  shows "seekForward cs chap chunk ch = Inr (lastPosition cs)"
proof -
  note li = last_index [OF assms(1,3,4)]
  have a: "jsIndex cs (int (length cs) - 1) = Some (cs ! nat chap)"
    using validIndex_chapter [OF assms(1)] li(1) by simp
  have b: "jsIndex (cs ! nat chap) (int (length (cs ! nat chap)) - 1) = Some (cs ! nat chap ! nat chunk)"
    using validIndex_chunk [OF assms(1)] li(2) by simp
  have c: "lastPosition cs = (chap, chunk, int (length (cs ! nat chap ! nat chunk)) - 1)"
    using li by (simp add: lastPosition_def Let_def)
  show ?thesis
    using assms(2,3,4)
    by (subst seekForward.simps)
       (simp add: validIndex_length [OF assms(1)] validIndex_chapter [OF assms(1)]
          validIndex_chunk [OF assms(1)] Let_def a b c li [symmetric])
qed

lemma validIndex_next_chunk:
  "validIndex cs chap chunk \<Longrightarrow> chunk + 1 < int (length (cs ! nat chap)) \<Longrightarrow>
   validIndex cs chap (chunk + 1)"
  by (simp add: validIndex_def)

lemma validIndex_next_chapter:
  assumes "chunked cs" "validIndex cs chap chunk" "chap + 1 < int (length cs)"
  shows "validIndex cs (chap + 1) 0"
proof -
  have "nat (chap + 1) < length cs" using assms(2,3) unfolding validIndex_def by linarith
  then have "cs ! nat (chap + 1) \<noteq> []" by (rule chunked_chapter [OF assms(1)])
  then show ?thesis using assms(2,3) by (simp add: validIndex_def)
qed

lemma normalized_lastPosition:
  assumes "chunked cs" "validIndex cs chap chunk"
    "\<not> chunk + 1 < int (length (cs ! nat chap))" "\<not> chap + 1 < int (length cs)"
  shows "normalized cs (lastPosition cs)"
proof -
  note li = last_index [OF assms(2,3,4)]
  have c: "lastPosition cs = (chap, chunk, chunkLen cs chap chunk - 1)"
    using li by (simp add: lastPosition_def Let_def chunkLen_def)
  show ?thesis
    using assms(2) chunkLen_pos [OF assms(1,2)] by (simp add: c normalized_def)
qed

lemma seekForward_normalized:
  "chunked cs \<Longrightarrow> validIndex cs chap chunk \<Longrightarrow> 0 \<le> ch \<Longrightarrow>
   \<exists>p. seekForward cs chap chunk ch = Inr p \<and> normalized cs p"
proof (induction cs chap chunk ch rule: seekForward.induct)
  case (1 cs chap chunk ch)
  note ck = \<open>chunked cs\<close> and vi = \<open>validIndex cs chap chunk\<close>
  note len = validIndex_length [OF vi]
  show ?case
  proof (cases "ch < chunkLen cs chap chunk")
    case True
    then have "seekForward cs chap chunk ch = Inr (chap, chunk, ch)"
      by (simp add: seekForward_stop len)
    moreover have "normalized cs (chap, chunk, ch)"
      using True vi "1.prems"(3) by (simp add: normalized_def)
    ultimately show ?thesis by simp
  next
    case False
    then have ge: "chunkLen cs chap chunk \<le> ch" by simp
    then have ge': "chunkLengthOr0 cs chap chunk \<le> ch" by (simp add: len)
    have ch1: "0 \<le> ch - int (length (cs ! nat chap ! nat chunk))"
      using ge by (simp add: chunkLen_def)
    show ?thesis
    proof (cases "chunk + 1 < int (length (cs ! nat chap))")
      case True
      have vn: "validIndex cs chap (chunk + 1)" using vi True by (rule validIndex_next_chunk)
      have "\<exists>p. seekForward cs chap (chunk + 1) (ch - int (length (cs ! nat chap ! nat chunk))) = Inr p
                \<and> normalized cs p"
        by (rule "1.IH"(2) [OF ge' validIndex_chapter [OF vi] validIndex_chunk [OF vi] refl refl _
              ck vn ch1]) (use True in simp)
      then show ?thesis
        by (simp add: seekForward_next_chunk [OF vi ge True] chunkLen_def)
    next
      case last: False
      show ?thesis
      proof (cases "chap + 1 < int (length cs)")
        case True
        have vn: "validIndex cs (chap + 1) 0" using ck vi True by (rule validIndex_next_chapter)
        have "\<exists>p. seekForward cs (chap + 1) 0 (ch - int (length (cs ! nat chap ! nat chunk))) = Inr p
                  \<and> normalized cs p"
          by (rule "1.IH"(1) [OF ge' validIndex_chapter [OF vi] validIndex_chunk [OF vi] refl refl _
                refl _ ck vn ch1]) (use last True in simp_all)
        then show ?thesis
          by (simp add: seekForward_next_chapter [OF vi ge last True] chunkLen_def)
      next
        case False
        show ?thesis
          using seekForward_clamp [OF vi ge last False]
            normalized_lastPosition [OF ck vi last False] by simp
      qed
    qed
  qed
qed

lemma charsFrom_next_chunk:
  assumes "validIndex cs chap chunk" "chunk + 1 < int (length (cs ! nat chap))"
  shows "charsFrom cs chap chunk = chunkLen cs chap chunk + charsFrom cs chap (chunk + 1)"
proof -
  have n: "nat chunk < length (cs ! nat chap)" using validIndex_nat [OF assms(1)] by simp
  have s: "nat (chunk + 1) = Suc (nat chunk)" using assms(1) by (simp add: validIndex_def nat_add_distrib)
  show ?thesis
    unfolding charsFrom_def chunkLen_def s
    by (subst Cons_nth_drop_Suc [OF n, symmetric]) simp
qed

lemma charsFrom_next_chapter:
  assumes "validIndex cs chap chunk" "\<not> chunk + 1 < int (length (cs ! nat chap))"
    "chap + 1 < int (length cs)"
  shows "charsFrom cs chap chunk = chunkLen cs chap chunk + charsFrom cs (chap + 1) 0"
proof -
  have n: "nat chunk < length (cs ! nat chap)" using validIndex_nat [OF assms(1)] by simp
  have "Suc (nat chunk) = length (cs ! nat chap)"
    using assms(1,2) unfolding validIndex_def by linarith
  then have d: "drop (Suc (nat chunk)) (cs ! nat chap) = []" by simp
  have s: "nat (chap + 1) = Suc (nat chap)" using assms(1) by (simp add: validIndex_def nat_add_distrib)
  have m: "Suc (nat chap) < length cs" using assms(1,3) unfolding validIndex_def by linarith
  show ?thesis
    unfolding charsFrom_def chunkLen_def s
    by (subst Cons_nth_drop_Suc [OF n, symmetric], subst Cons_nth_drop_Suc [OF m, symmetric])
       (simp add: d chapterChars_def)
qed

lemma charsFrom_last:
  assumes "validIndex cs chap chunk" "\<not> chunk + 1 < int (length (cs ! nat chap))"
    "\<not> chap + 1 < int (length cs)"
  shows "charsFrom cs chap chunk = chunkLen cs chap chunk"
proof -
  have n: "nat chunk < length (cs ! nat chap)" using validIndex_nat [OF assms(1)] by simp
  have "Suc (nat chunk) = length (cs ! nat chap)"
    using assms(1,2) unfolding validIndex_def by linarith
  then have d: "drop (Suc (nat chunk)) (cs ! nat chap) = []" by simp
  have "length cs \<le> Suc (nat chap)" using assms(1,3) unfolding validIndex_def by linarith
  then have e: "drop (Suc (nat chap)) cs = []" by simp
  show ?thesis
    unfolding charsFrom_def chunkLen_def
    by (subst Cons_nth_drop_Suc [OF n, symmetric]) (simp add: d e)
qed

lemma seekForward_clamps:
  "chunked cs \<Longrightarrow> validIndex cs chap chunk \<Longrightarrow> charsFrom cs chap chunk \<le> ch \<Longrightarrow>
   seekForward cs chap chunk ch = Inr (lastPosition cs)"
proof (induction cs chap chunk ch rule: seekForward.induct)
  case (1 cs chap chunk ch)
  note ck = \<open>chunked cs\<close> and vi = \<open>validIndex cs chap chunk\<close>
  note len = validIndex_length [OF vi]
  show ?case
  proof (cases "chunk + 1 < int (length (cs ! nat chap))")
    case True
    have vn: "validIndex cs chap (chunk + 1)" using vi True by (rule validIndex_next_chunk)
    have ge: "chunkLen cs chap chunk \<le> ch"
      using "1.prems"(3) charsFrom_next_chunk [OF vi True] by (simp add: charsFrom_def)
    have ge': "chunkLengthOr0 cs chap chunk \<le> ch" using ge by (simp add: len)
    have "seekForward cs chap (chunk + 1) (ch - int (length (cs ! nat chap ! nat chunk)))
          = Inr (lastPosition cs)"
      by (rule "1.IH"(2) [OF ge' validIndex_chapter [OF vi] validIndex_chunk [OF vi] refl refl _
            ck vn])
         (use True "1.prems"(3) charsFrom_next_chunk [OF vi True] in \<open>simp_all add: chunkLen_def\<close>)
    then show ?thesis
      by (simp add: seekForward_next_chunk [OF vi ge True] chunkLen_def)
  next
    case last: False
    show ?thesis
    proof (cases "chap + 1 < int (length cs)")
      case True
      have vn: "validIndex cs (chap + 1) 0" using ck vi True by (rule validIndex_next_chapter)
      have ge: "chunkLen cs chap chunk \<le> ch"
        using "1.prems"(3) charsFrom_next_chapter [OF vi last True] by (simp add: charsFrom_def)
      have ge': "chunkLengthOr0 cs chap chunk \<le> ch" using ge by (simp add: len)
      have "seekForward cs (chap + 1) 0 (ch - int (length (cs ! nat chap ! nat chunk)))
            = Inr (lastPosition cs)"
        by (rule "1.IH"(1) [OF ge' validIndex_chapter [OF vi] validIndex_chunk [OF vi] refl refl _
              refl _ ck vn])
           (use last True "1.prems"(3) charsFrom_next_chapter [OF vi last True]
             in \<open>simp_all add: chunkLen_def\<close>)
      then show ?thesis
        by (simp add: seekForward_next_chapter [OF vi ge last True] chunkLen_def)
    next
      case False
      have ge: "chunkLen cs chap chunk \<le> ch"
        using "1.prems"(3) charsFrom_last [OF vi last False] by simp
      show ?thesis by (rule seekForward_clamp [OF vi ge last False])
    qed
  qed
qed

text \<open>Walking forward without reaching the end, and then back by \<open>d\<close>, is walking back by
  \<open>d\<close> from the start, when that stays in the first chunk or before it.\<close>

lemma seekForward_seekBackward:
  "chunked cs \<Longrightarrow> validIndex cs chap chunk \<Longrightarrow> ch < charsFrom cs chap chunk \<Longrightarrow>
   ch - d < chunkLen cs chap chunk \<Longrightarrow>
   \<exists>a b c. seekForward cs chap chunk ch = Inr (a, b, c) \<and>
            seekBackward cs a b (c - d) = seekBackward cs chap chunk (ch - d)"
proof (induction cs chap chunk ch rule: seekForward.induct)
  case (1 cs chap chunk ch)
  note ck = \<open>chunked cs\<close> and vi = \<open>validIndex cs chap chunk\<close>
  note len = validIndex_length [OF vi]
  show ?case
  proof (cases "ch < chunkLen cs chap chunk")
    case True
    then show ?thesis by (simp add: seekForward_stop len)
  next
    case False
    then have ge: "chunkLen cs chap chunk \<le> ch" by simp
    then have ge': "chunkLengthOr0 cs chap chunk \<le> ch" by (simp add: len)
    let ?l = "int (length (cs ! nat chap ! nat chunk))"
    have neg: "ch - ?l - d < 0" using "1.prems"(4) by (simp add: chunkLen_def)
    show ?thesis
    proof (cases "chunk + 1 < int (length (cs ! nat chap))")
      case True
      have vn: "validIndex cs chap (chunk + 1)" using vi True by (rule validIndex_next_chunk)
      have "\<exists>a b c. seekForward cs chap (chunk + 1) (ch - ?l) = Inr (a, b, c) \<and>
              seekBackward cs a b (c - d) = seekBackward cs chap (chunk + 1) (ch - ?l - d)"
        by (rule "1.IH"(2) [OF ge' validIndex_chapter [OF vi] validIndex_chunk [OF vi] refl refl _
              ck vn])
           (use True neg "1.prems"(3) charsFrom_next_chunk [OF vi True]
             in \<open>simp_all add: chunkLen_def\<close>)
      moreover have "seekBackward cs chap (chunk + 1) (ch - ?l - d) = seekBackward cs chap chunk (ch - d)"
        using seekBackward_prev_chunk [OF vn neg] vi by (simp add: chunkLen_def validIndex_def)
      ultimately show ?thesis
        by (simp add: seekForward_next_chunk [OF vi ge True] chunkLen_def)
    next
      case last: False
      show ?thesis
      proof (cases "chap + 1 < int (length cs)")
        case True
        have vn: "validIndex cs (chap + 1) 0" using ck vi True by (rule validIndex_next_chapter)
        have "\<exists>a b c. seekForward cs (chap + 1) 0 (ch - ?l) = Inr (a, b, c) \<and>
                seekBackward cs a b (c - d) = seekBackward cs (chap + 1) 0 (ch - ?l - d)"
          by (rule "1.IH"(1) [OF ge' validIndex_chapter [OF vi] validIndex_chunk [OF vi] refl refl _
                refl _ ck vn])
             (use last True neg "1.prems"(3) charsFrom_next_chapter [OF vi last True]
               chunkLen_pos [OF ck vn] in \<open>simp_all add: chunkLen_def\<close>)
        moreover have "chunk = int (length (cs ! nat chap)) - 1"
          using vi last unfolding validIndex_def by linarith
        then have "seekBackward cs (chap + 1) 0 (ch - ?l - d) = seekBackward cs chap chunk (ch - d)"
          using seekBackward_prev_chapter [OF ck vn neg] vi by (simp add: chunkLen_def validIndex_def)
        ultimately show ?thesis
          by (simp add: seekForward_next_chapter [OF vi ge last True] chunkLen_def)
      next
        case False
        then show ?thesis
          using "1.prems"(3) ge charsFrom_last [OF vi last False] by simp
      qed
    qed
  qed
qed

lemma charsBefore_prev_chunk:
  assumes "validIndex cs chap chunk" "0 < chunk"
  shows "charsBefore cs chap chunk = charsBefore cs chap (chunk - 1) + chunkLen cs chap (chunk - 1)"
proof -
  have s: "nat chunk = Suc (nat (chunk - 1))" using assms(2) by linarith
  have n: "nat (chunk - 1) < length (cs ! nat chap)"
    using validIndex_nat [OF assms(1)] assms(2) by linarith
  show ?thesis
    unfolding charsBefore_def chunkLen_def s by (simp add: take_Suc_conv_app_nth [OF n])
qed

lemma charsBefore_prev_chapter:
  assumes "chunked cs" "validIndex cs chap 0" "0 < chap"
  shows "charsBefore cs chap 0 =
         charsBefore cs (chap - 1) (int (length (cs ! nat (chap - 1))) - 1)
         + chunkLen cs (chap - 1) (int (length (cs ! nat (chap - 1))) - 1)"
proof -
  let ?c = "cs ! nat (chap - 1)"
  have s: "nat chap = Suc (nat (chap - 1))" using assms(3) by linarith
  have n: "nat (chap - 1) < length cs" using validIndex_nat [OF assms(2)] assms(3) by linarith
  have ne: "?c \<noteq> []" using prev_chapter_nonempty [OF assms] .
  then have m: "nat (int (length ?c) - 1) < length ?c" by (cases ?c) simp_all
  have "take (Suc (nat (int (length ?c) - 1))) ?c = ?c" using ne by (cases ?c) simp_all
  then have "chapterChars ?c =
      sum_list (map length (take (nat (int (length ?c) - 1)) ?c))
      + length (?c ! nat (int (length ?c) - 1))"
    unfolding chapterChars_def by (subst (asm) take_Suc_conv_app_nth [OF m]) (metis (no_types) map_append sum_list_append list.simps(8,9) sum_list.Cons sum_list.Nil add.right_neutral)
  then show ?thesis
    unfolding charsBefore_def chunkLen_def s by (simp add: take_Suc_conv_app_nth [OF n])
qed

lemma seekBackward_clamps:
  "chunked cs \<Longrightarrow> validIndex cs chap chunk \<Longrightarrow> ch < - charsBefore cs chap chunk \<Longrightarrow>
   seekBackward cs chap chunk ch = Inr (0, 0, 0)"
proof (induction cs chap chunk ch rule: seekBackward.induct)
  case (1 cs chap chunk ch)
  note ck = \<open>chunked cs\<close> and vi = \<open>validIndex cs chap chunk\<close>
  have neg: "ch < 0" using "1.prems"(3) by (simp add: charsBefore_def)
  show ?case
  proof (cases "0 < chunk")
    case True
    let ?b = "chunk - 1"
    have vb: "validIndex cs chap ?b" using vi True by (rule validIndex_prev_chunk)
    have "seekBackward cs chap ?b (ch + int (length (cs ! nat chap ! nat ?b))) = Inr (0, 0, 0)"
      by (rule "1.IH"(2) [OF neg refl _ validIndex_chapter [OF vi] validIndex_chunk [OF vb] ck vb])
         (use True "1.prems"(3) charsBefore_prev_chunk [OF vi True] in \<open>simp_all add: chunkLen_def\<close>)
    then show ?thesis
      by (simp add: seekBackward_prev_chunk [OF vi neg True] chunkLen_def)
  next
    case False
    with vi have c0: "chunk = 0" by (simp add: validIndex_def)
    have vi0: "validIndex cs chap 0" using vi c0 by simp
    show ?thesis
    proof (cases "0 < chap")
      case True
      let ?a = "chap - 1"
      let ?b = "int (length (cs ! nat ?a)) - 1"
      have vb: "validIndex cs ?a ?b" using ck vi0 True by (rule validIndex_prev_chapter)
      have "seekBackward cs ?a ?b (ch + int (length (cs ! nat ?a ! nat ?b))) = Inr (0, 0, 0)"
        by (rule "1.IH"(1) [OF neg refl _ refl _ validIndex_chapter [OF vb] refl
                validIndex_chunk [OF vb] ck vb])
           (use True c0 "1.prems"(3) charsBefore_prev_chapter [OF ck vi0 True]
             in \<open>simp_all add: chunkLen_def\<close>)
      then show ?thesis
        by (simp add: c0 seekBackward_prev_chapter [OF ck vi0 neg True] chunkLen_def)
    next
      case False
      with vi have a0: "chap = 0" by (simp add: validIndex_def)
      show ?thesis by (simp add: a0 c0 seekBackward_clamp [OF neg])
    qed
  qed
qed

lemma validPosition_validIndex:
  assumes "chunked cs" "validPosition cs (chap, chunk, ch)"
  shows "validIndex cs chap chunk" "0 \<le> ch" "ch \<le> chunkLen cs chap chunk"
proof -
  from assms(2) have b: "0 \<le> chap" "chap < int (length cs)"
    by (simp_all add: validPosition_def)
  then have "nat chap < length cs" by linarith
  then have "cs ! nat chap \<noteq> []" by (rule chunked_chapter [OF assms(1)])
  with assms(2) show vi: "validIndex cs chap chunk"
    by (simp add: validPosition_def validIndex_def)
  from assms(2) show "0 \<le> ch" by (simp add: validPosition_def)
  from assms(2) show "ch \<le> chunkLen cs chap chunk"
    by (simp add: validPosition_def validIndex_length [OF vi])
qed

lemma chunkLen_le_charsFrom: "validIndex cs chap chunk \<Longrightarrow> chunkLen cs chap chunk \<le> charsFrom cs chap chunk"
proof -
  assume vi: "validIndex cs chap chunk"
  have n: "nat chunk < length (cs ! nat chap)" using validIndex_nat [OF vi] by simp
  show ?thesis
    unfolding charsFrom_def chunkLen_def
    by (subst Cons_nth_drop_Suc [OF n, symmetric]) simp
qed

lemma normalized_bounds:
  assumes "normalized cs p"
  shows "validPosition cs p" "posLe (0, 0, 0) p" "posLe p (lastPosition cs)"
proof -
  obtain a b c where p: "p = (a, b, c)" by (cases p)
  from assms have vi: "validIndex cs a b" and c: "0 \<le> c" "c < chunkLen cs a b"
    by (simp_all add: normalized_def p)
  have ne: "cs ! nat a \<noteq> []" using validIndex_nat [OF vi] by auto
  show "validPosition cs p"
    using vi c ne by (simp add: p validPosition_def validIndex_length [OF vi] validIndex_def)
  show "posLe (0, 0, 0) p"
    using vi c unfolding p posLe_def validIndex_def by auto
  show "posLe p (lastPosition cs)"
  proof (cases "a = int (length cs) - 1")
    case a: True
    show ?thesis
    proof (cases "b = int (length (cs ! nat a)) - 1")
      case True
      then show ?thesis
        using a c by (simp add: p posLe_def lastPosition_def Let_def chunkLen_def)
    next
      case False
      then have "b < int (length (cs ! nat a)) - 1" using vi unfolding validIndex_def by linarith
      then show ?thesis using a by (simp add: p posLe_def lastPosition_def Let_def)
    qed
  next
    case False
    then have "a < int (length cs) - 1" using vi unfolding validIndex_def by linarith
    then show ?thesis by (simp add: p posLe_def lastPosition_def Let_def)
  qed
qed

lemma seekForward_normalized_id:
  "normalized cs p \<Longrightarrow> (case p of (a, b, c) \<Rightarrow> seekForward cs a b c) = Inr p"
  by (auto simp: normalized_def validIndex_length seekForward_stop)

text \<open>
  Where every chapter has a chunk and no chunk is empty, the seek arithmetic of \<open>skip\<close>,
  from a valid position and with any offset, returns a position, and that position is
  valid and lies between \<open>(0, 0, 0)\<close> and the last character of the last chunk of the last
  chapter; an offset below the characters before the position gives \<open>(0, 0, 0)\<close>, and one
  that reaches the end of the book gives that last character.
\<close>

theorem seek_within_book:
  assumes "chunked cs" "validPosition cs (chap, chunk, ch)"
  shows "\<exists>p'. seek cs (chap, chunk, ch) charOffset = Inr p' \<and>
           validPosition cs p' \<and> posLe (0, 0, 0) p' \<and> posLe p' (lastPosition cs) \<and>
           (ch + charOffset < - charsBefore cs chap chunk \<longrightarrow> p' = (0, 0, 0)) \<and>
           (charsFrom cs chap chunk \<le> ch + charOffset \<longrightarrow> p' = lastPosition cs)"
proof -
  note vp = validPosition_validIndex [OF assms]
  let ?t = "ch + charOffset"
  have nb: "0 \<le> charsBefore cs chap chunk" by (simp add: charsBefore_def)
  show ?thesis
  proof (cases "?t < chunkLen cs chap chunk")
    case True
    obtain p where p: "seekBackward cs chap chunk ?t = Inr p" "normalized cs p"
      using seekBackward_normalized [OF assms(1) vp(1) True] by blast
    have s: "seek cs (chap, chunk, ch) charOffset = Inr p"
      using seekForward_normalized_id [OF p(2)] by (simp add: seek_def p(1) split: prod.splits)
    have "?t < - charsBefore cs chap chunk \<longrightarrow> p = (0, 0, 0)"
      using seekBackward_clamps [OF assms(1) vp(1), of ?t] p(1) by auto
    moreover have "\<not> charsFrom cs chap chunk \<le> ?t"
      using True chunkLen_le_charsFrom [OF vp(1)] by simp
    ultimately show ?thesis using s normalized_bounds [OF p(2)] by simp
  next
    case False
    then have ge: "0 \<le> ?t" using vp(2,3) by linarith
    obtain p where p: "seekForward cs chap chunk ?t = Inr p" "normalized cs p"
      using seekForward_normalized [OF assms(1) vp(1) ge] by blast
    have s: "seek cs (chap, chunk, ch) charOffset = Inr p"
      by (simp add: seek_def seekBackward_stop [OF ge] p(1))
    have "charsFrom cs chap chunk \<le> ?t \<longrightarrow> p = lastPosition cs"
      using seekForward_clamps [OF assms(1) vp(1), of ?t] p(1) by auto
    moreover have "\<not> ?t < - charsBefore cs chap chunk" using ge nb by linarith
    ultimately show ?thesis using s normalized_bounds [OF p(2)] by simp
  qed
qed

theorem seek_within_book_witness:
  "chunked [[''abcde'', ''fgh''], [''ij'']] \<and>
   validPosition [[''abcde'', ''fgh''], [''ij'']] (0, 1, 2) \<and>
   (\<exists>p'. seek [[''abcde'', ''fgh''], [''ij'']] (0, 1, 2) 400 = Inr p' \<and>
      validPosition [[''abcde'', ''fgh''], [''ij'']] p' \<and>
      p' = lastPosition [[''abcde'', ''fgh''], [''ij'']])"
proof -
  let ?cs = "[[''abcde'', ''fgh''], [''ij'']]"
  have h1: "chunked ?cs" by (simp add: chunked_def)
  have h2: "validPosition ?cs (0, 1, 2)"
    by (simp add: validPosition_def chunkLengthOr0_def jsIndex_def)
  have h3: "charsFrom ?cs 0 1 \<le> 2 + 400" by (simp add: charsFrom_def chapterChars_def)
  show ?thesis using seek_within_book [OF h1 h2, of 400] h1 h2 h3 by blast
qed


text \<open>The second loop of the other version stops at the empty chapter: its condition
  asks for a positive length too.\<close>

lemma seek_v2_at_empty_chapter:
  "seek_v2 [[''ab''], [], [''cd'']] (0, 0, 0) 225 = Inr (1, 0, 0)"
  by code_simp

text \<open>
  Claim C4, as amended. In a book whose chapters all have a chunk and whose chunks are not
  empty, from a valid position whose character index is below the length of its chunk,
  and for a positive offset \<open>k\<close> that does not reach the end of the book, seeking by \<open>k\<close>
  and then by \<open>-k\<close> returns the position.
\<close>

theorem seek_forth_and_back:
  assumes "chunked cs" "validPosition cs (chap, chunk, ch)" "ch < chunkLengthOr0 cs chap chunk"
    "0 < k" "ch + k < charsFrom cs chap chunk"
  shows "\<exists>p'. seek cs (chap, chunk, ch) k = Inr p' \<and> seek cs p' (- k) = Inr (chap, chunk, ch)"
proof -
  note vp = validPosition_validIndex [OF assms(1,2)]
  have lt: "ch < chunkLen cs chap chunk" using assms(3) by (simp add: validIndex_length [OF vp(1)])
  have ge: "0 \<le> ch + k" using vp(2) assms(4) by simp
  obtain a b c where f: "seekForward cs chap chunk (ch + k) = Inr (a, b, c)"
    and b: "seekBackward cs a b (c - k) = seekBackward cs chap chunk (ch + k - k)"
    using seekForward_seekBackward [OF assms(1) vp(1) assms(5), of k] lt by auto
  have s1: "seek cs (chap, chunk, ch) k = Inr (a, b, c)"
    by (simp add: seek_def seekBackward_stop [OF ge] f)
  have "seekBackward cs a b (c + - k) = Inr (chap, chunk, ch)"
    using b by (simp add: seekBackward_stop [OF vp(2)])
  then have "seek cs (a, b, c) (- k) = Inr (chap, chunk, ch)"
    using assms(3) by (simp add: seek_def seekForward_stop)
  with s1 show ?thesis by simp
qed

theorem seek_forth_and_back_witness:
  "chunked [[''abcde'', ''fgh''], [''ij'']] \<and>
   validPosition [[''abcde'', ''fgh''], [''ij'']] (0, 0, 3) \<and>
   3 < chunkLengthOr0 [[''abcde'', ''fgh''], [''ij'']] 0 0 \<and>
   3 + 4 < charsFrom [[''abcde'', ''fgh''], [''ij'']] 0 0 \<and>
   (\<exists>p'. seek [[''abcde'', ''fgh''], [''ij'']] (0, 0, 3) 4 = Inr p' \<and>
      seek [[''abcde'', ''fgh''], [''ij'']] p' (- 4) = Inr (0, 0, 3))"
proof -
  let ?cs = "[[''abcde'', ''fgh''], [''ij'']]"
  have h1: "chunked ?cs" by (simp add: chunked_def)
  have h2: "validPosition ?cs (0, 0, 3)"
    by (simp add: validPosition_def chunkLengthOr0_def jsIndex_def)
  have h3: "3 < chunkLengthOr0 ?cs 0 0" by (simp add: chunkLengthOr0_def jsIndex_def)
  have h4: "(0::int) < 4" by simp
  have h5: "3 + 4 < charsFrom ?cs 0 0" by (simp add: charsFrom_def chapterChars_def)
  show ?thesis using seek_forth_and_back [OF h1 h2 h3 h4 h5] h1 h2 h3 h5 by blast
qed

text \<open>
  Claim C4 as stated fails at a valid position at the end of its chunk (character index
  equal to the length): neither direction clamps, and the way back ends at the start of
  the next chunk, which is the same place under another name.
\<close>

theorem seek_forth_and_back_counterexample:
  "validPosition [[''ab'', ''cd'', ''ef'']] (0, 0, 2) \<and>
   seek [[''ab'', ''cd'', ''ef'']] (0, 0, 2) 1 = Inr (0, 1, 1) \<and>
   seek [[''ab'', ''cd'', ''ef'']] (0, 1, 1) (- 1) = Inr (0, 1, 0) \<and>
   seek [[''ab'', ''cd'', ''ef'']] (0, 0, 2) (- 1) = Inr (0, 0, 1)"
  by code_simp

section \<open>Properties of the playback state\<close>

lemma speak_isPaused [simp]: "isPaused (speak cs a b c s) = isPaused s"
  by (simp add: speak_def clearWatchdog_def Let_def split: option.splits)

lemma speak_isSpeaking: "isSpeaking (speak cs a b c s) \<Longrightarrow> isSpeaking s"
  by (simp add: speak_def clearWatchdog_def Let_def split: option.splits if_splits)

lemma speak_flags: "exclusive s \<Longrightarrow> exclusive (speak cs a b c s)"
  using speak_isSpeaking [of cs a b c s] by (auto simp: exclusive_def)

lemma pause_flags: "exclusive (pause s)"
  by (simp add: exclusive_def pause_def clearWatchdog_def)

lemma onend_flags: "exclusive s \<Longrightarrow> exclusive (stateOf (onend cs u s))"
  unfolding onend_def Let_def exclusive_def
  by (auto split: option.splits dest!: speak_isSpeaking simp: pause_def clearWatchdog_def)

lemma skip_flags: "exclusive s \<Longrightarrow> exclusive (stateOf (skip cs off s))"
  by (auto simp: skip_def exclusive_def Let_def split: sum.splits prod.splits)

lemma step_flags: "exclusive s \<Longrightarrow> exclusive (step cs ev s)"
proof (cases ev)
  case (EngineEnd u)
  assume "exclusive s"
  then show ?thesis by (simp add: EngineEnd onend_flags)
next
  case (Skip off)
  assume "exclusive s"
  then show ?thesis by (simp add: Skip skip_flags)
next
  case (WatchdogInterval stalled u)
  assume "exclusive s"
  then show ?thesis by (simp add: WatchdogInterval watchdogInterval_def onend_flags)
next
  case (WatchdogTimeout sp u)
  assume "exclusive s"
  then show ?thesis by (simp add: WatchdogTimeout watchdogTimeout_def onend_flags)
next
  case (SpeakAfterDelay a b c)
  assume "exclusive s"
  then show ?thesis by (simp add: SpeakAfterDelay speakAfterDelay_def speak_flags)
qed (auto simp: exclusive_def play_def pause_def resume_def jumpToChapter_def
       handleNextChapter_def handlePrevChapter_def onboundary_def onerror_def clearWatchdog_def
       sleepTimerEffect_def sleepTick_def sleepTimerCallback_def cleanupEffect_def
       split: sleep_timer.splits)

lemma run_flags: "exclusive s \<Longrightarrow> exclusive (run cs evs s)"
  by (induction evs arbitrary: s) (simp_all add: step_flags)

text \<open>
  Claim C9. The two flags are not both set at the first render, and no operation,
  callback or effect sets both: \<open>play\<close>, \<open>pause\<close>, \<open>resume\<close>, \<open>jumpToChapter\<close> and the chapter
  buttons, \<open>skip\<close>, the delayed \<open>speak\<close>, the boundary, end and error events of the engine,
  both watchdogs, and the sleep timer.
\<close>

theorem flags_exclusive:
  "exclusive initialState \<and> (exclusive s \<longrightarrow> exclusive (step cs ev s))"
  using step_flags by (simp add: exclusive_def initialState_def)

theorem flags_exclusive_witness:
  "exclusive (play 0 0 initialState) \<and> exclusive (step [[''a'']] Pause (play 0 0 initialState))
   \<and> status (step [[''a'']] Pause (play 0 0 initialState)) = Paused"
  using flags_exclusive [of "play 0 0 initialState" "[[''a'']]" Pause]
  by (simp add: exclusive_def play_def initialState_def pause_def clearWatchdog_def status_def)

lemma reachable_exclusive: "exclusive (run cs evs initialState)"
  by (rule run_flags) (simp add: exclusive_def initialState_def)

subsection \<open>The end of a segment\<close>

lemma speak_position:
  "currentChapterIndex (speak cs a b c s) = currentChapterIndex s \<and>
   currentChunkIndex (speak cs a b c s) = currentChunkIndex s \<and>
   currentCharIndex (speak cs a b c s) = currentCharIndex s \<and>
   sleepTimer (speak cs a b c s) = sleepTimer s"
  by (simp add: speak_def clearWatchdog_def Let_def split: option.splits)

text \<open>
  Claim C2, as amended. The engine reports the end of the utterance of the current
  chunk while the status is Speaking. If the chapter has a further chunk, the chunk index
  grows by one, the character index is 0 and the chapter index stays. If it has none and
  the book no further chapter, then, unless the sleep timer is set to the end of the
  chapter, the status is Idle and the chapter and chunk indices stay. With the sleep
  timer set to the end of the chapter, the status is Paused instead, the timer is cleared
  and the indices stay.
\<close>

theorem onend_advances:
  assumes "isSpeaking s" "\<not> isPaused s"
    "0 \<le> uChapterIdx u" "uChapterIdx u < int (length cs)"
    "uChapterIdx u = currentChapterIndex s" "uChunkIdx u = currentChunkIndex s"
  shows
    "(uChunkIdx u + 1 < int (length (cs ! nat (uChapterIdx u))) \<longrightarrow>
        currentChunkIndex (stateOf (onend cs u s)) = currentChunkIndex s + 1 \<and>
        currentCharIndex (stateOf (onend cs u s)) = 0 \<and>
        currentChapterIndex (stateOf (onend cs u s)) = currentChapterIndex s) \<and>
     (\<not> uChunkIdx u + 1 < int (length (cs ! nat (uChapterIdx u))) \<and>
      \<not> uChapterIdx u + 1 < int (length cs) \<and> sleepTimer s \<noteq> EndOfChapter \<longrightarrow>
        status (stateOf (onend cs u s)) = Idle \<and>
        currentChapterIndex (stateOf (onend cs u s)) = currentChapterIndex s \<and>
        currentChunkIndex (stateOf (onend cs u s)) = currentChunkIndex s) \<and>
     (\<not> uChunkIdx u + 1 < int (length (cs ! nat (uChapterIdx u))) \<and>
      sleepTimer s = EndOfChapter \<longrightarrow>
        status (stateOf (onend cs u s)) = Paused \<and>
        sleepTimer (stateOf (onend cs u s)) = NoTimer \<and>
        currentChapterIndex (stateOf (onend cs u s)) = currentChapterIndex s \<and>
        currentChunkIndex (stateOf (onend cs u s)) = currentChunkIndex s)"
proof -
  have j: "jsIndex cs (uChapterIdx u) = Some (cs ! nat (uChapterIdx u))"
    using assms(3,4) by (simp add: jsIndex_def)
  show ?thesis
    using assms(1,2,6)
    by (simp add: onend_def Let_def j speak_position status_def pause_def clearWatchdog_def)
qed

theorem onend_advances_witness:
  "currentChunkIndex (stateOf (onend [[''a'', ''b'']] \<lparr>uid = 0, uChapterIdx = 0, uChunkIdx = 0, uCharIdx = 0\<rparr>
      (play 0 0 initialState))) = 1 \<and>
   status (stateOf (onend [[''a'', ''b'']] \<lparr>uid = 1, uChapterIdx = 0, uChunkIdx = 1, uCharIdx = 0\<rparr>
      (play 0 1 initialState))) = Idle \<and>
   status (stateOf (onend [[''a'', ''b'']] \<lparr>uid = 1, uChapterIdx = 0, uChunkIdx = 1, uCharIdx = 0\<rparr>
      ((play 0 1 initialState)\<lparr>sleepTimer := EndOfChapter\<rparr>))) = Paused"
proof -
  let ?cs = "[[''a'', ''b'']]"
  let ?u0 = "\<lparr>uid = 0, uChapterIdx = 0, uChunkIdx = 0, uCharIdx = 0\<rparr>"
  let ?u1 = "\<lparr>uid = 1, uChapterIdx = 0, uChunkIdx = 1, uCharIdx = 0\<rparr>"
  have a: "isSpeaking (play 0 0 initialState)" "\<not> isPaused (play 0 0 initialState)"
    "0 \<le> uChapterIdx ?u0" "uChapterIdx ?u0 < int (length ?cs)"
    "uChapterIdx ?u0 = currentChapterIndex (play 0 0 initialState)"
    "uChunkIdx ?u0 = currentChunkIndex (play 0 0 initialState)"
    by (simp_all add: play_def initialState_def)
  have b: "isSpeaking (play 0 1 initialState)" "\<not> isPaused (play 0 1 initialState)"
    "0 \<le> uChapterIdx ?u1" "uChapterIdx ?u1 < int (length ?cs)"
    "uChapterIdx ?u1 = currentChapterIndex (play 0 1 initialState)"
    "uChunkIdx ?u1 = currentChunkIndex (play 0 1 initialState)"
    by (simp_all add: play_def initialState_def)
  let ?s2 = "(play 0 1 initialState)\<lparr>sleepTimer := EndOfChapter\<rparr>"
  have c: "isSpeaking ?s2" "\<not> isPaused ?s2"
    "0 \<le> uChapterIdx ?u1" "uChapterIdx ?u1 < int (length ?cs)"
    "uChapterIdx ?u1 = currentChapterIndex ?s2"
    "uChunkIdx ?u1 = currentChunkIndex ?s2"
    by (simp_all add: play_def initialState_def)
  show ?thesis
    using onend_advances [OF a] onend_advances [OF b] onend_advances [OF c]
    by (simp add: play_def initialState_def)
qed

text \<open>
  Claim C2 as stated fails with the sleep timer set to the end of the chapter: on the last
  chunk of the last chapter the handler pauses, and the status is Paused, not Idle.
\<close>

theorem onend_end_of_chapter_counterexample:
  "isSpeaking ((play 0 0 initialState)\<lparr>sleepTimer := EndOfChapter\<rparr>) \<and>
   \<not> isPaused ((play 0 0 initialState)\<lparr>sleepTimer := EndOfChapter\<rparr>) \<and>
   status (stateOf (onend [[''a'']] \<lparr>uid = 0, uChapterIdx = 0, uChunkIdx = 0, uCharIdx = 0\<rparr>
      ((play 0 0 initialState)\<lparr>sleepTimer := EndOfChapter\<rparr>))) = Paused"
  by (simp add: onend_def Let_def jsIndex_def play_def initialState_def pause_def
      clearWatchdog_def status_def)

subsection \<open>Errors of the engine\<close>

text \<open>
  Claim C5. The handler of the first version does not look at the kind of the error:
  after \<open>skip\<close> has cancelled the running utterance, an error of kind "interrupted" sets the
  error message and takes the status from Speaking to Idle.
\<close>

theorem onerror_interrupted:
  "status (stateOf (skip [[''hello world'']] 3 (play 0 0 initialState))) = Speaking \<and>
   error (stateOf (skip [[''hello world'']] 3 (play 0 0 initialState))) = None \<and>
   error (onerror ''interrupted'' (stateOf (skip [[''hello world'']] 3 (play 0 0 initialState))))
     = Some errorMessage \<and>
   status (onerror ''interrupted'' (stateOf (skip [[''hello world'']] 3 (play 0 0 initialState))))
     = Idle"
proof -
  have "seek [[''hello world'']] (0, 0, 0) 3 = Inr (0, 0, 3)" by code_simp
  then show ?thesis
    by (simp add: skip_def position_def play_def initialState_def onerror_def
        clearWatchdog_def status_def Let_def)
qed

text \<open>So it does for every kind and state; the handler of the other version returns at
  once on "interrupted" and "canceled", and reports every other kind.\<close>

lemma onerror_general:
  "error (onerror kind s) = Some errorMessage \<and> \<not> isSpeaking (onerror kind s)"
  by (simp add: onerror_def clearWatchdog_def)

lemma onerror_v2_benign:
  "kind = ''interrupted'' \<or> kind = ''canceled'' \<Longrightarrow> onerror_v2 key kind x = x"
  by (auto simp: onerror_v2_def)

lemma onerror_v2_fault:
  "kind \<noteq> ''interrupted'' \<Longrightarrow> kind \<noteq> ''canceled'' \<Longrightarrow>
   error (fst (onerror_v2 key kind (s, st))) = Some (errorMessage_v2 kind) \<and>
   status (fst (onerror_v2 key kind (s, st))) = Idle"
  by (simp add: onerror_v2_def cancel_v2_def status_def)

subsection \<open>The watchdog\<close>










text \<open>The deadline: with a positive rate the floor of five seconds is never the greater
  argument, and a chunk of 250 characters at rate 1 gives 26.67 seconds. The watchdog of
  the first version, once it finds the engine stalled, runs the end handler too.\<close>

lemma watchdogTimeoutMs_floor:
  "0 < playbackRate \<Longrightarrow>
   watchdogTimeoutMs len playbackRate = Some (real len / (15 * playbackRate) * 1000 + 10000)"
  by (simp add: watchdogTimeoutMs_def estimatedDurationMs_def max_def)

lemma watchdogTimeoutMs_250: "watchdogTimeoutMs 250 1 = Some (80000 / 3)"
  by (simp add: watchdogTimeoutMs_def estimatedDurationMs_def)

lemma watchdogInterval_as_onend: "watchdogInterval cs True u s = onend cs u s"
  by (simp add: watchdogInterval_def)

subsection \<open>The sleep timer\<close>

lemma sleepTick_count:
  "isSpeaking s \<Longrightarrow> sleepTimer s = Seconds (int n) \<Longrightarrow> m < n \<Longrightarrow>
   (sleepTick ^^ m) s = s\<lparr>sleepTimer := Seconds (int n - int m)\<rparr>"
proof (induction m)
  case 0
  then show ?case by simp
next
  case (Suc m)
  then have "(sleepTick ^^ m) s = s\<lparr>sleepTimer := Seconds (int n - int m)\<rparr>" by simp
  moreover have "sleepTick (s\<lparr>sleepTimer := Seconds (int n - int m)\<rparr>)
      = s\<lparr>sleepTimer := Seconds (int n - int (Suc m))\<rparr>"
    using Suc.prems
    by (simp add: sleepTick_def sleepIntervalRunning_def sleepTimerCallback_def
        sleepTimerEffect_def algebra_simps)
  ultimately show ?case by simp
qed

lemma sleepTick_last:
  "isSpeaking s \<Longrightarrow> sleepTimer s = Seconds 1 \<Longrightarrow> sleepTick s = (pause s)\<lparr>sleepTimer := NoTimer\<rparr>"
  by (simp add: sleepTick_def sleepIntervalRunning_def sleepTimerCallback_def
      sleepTimerEffect_def pause_def clearWatchdog_def)

lemma sleepTick_expiry:
  assumes "isSpeaking s" "sleepTimer s = Seconds (int (Suc n))"
  shows "(sleepTick ^^ Suc n) s = (pause s)\<lparr>sleepTimer := NoTimer\<rparr>"
proof -
  have "(sleepTick ^^ n) s = s\<lparr>sleepTimer := Seconds (int (Suc n) - int n)\<rparr>"
    using assms by (intro sleepTick_count) simp_all
  then have "(sleepTick ^^ Suc n) s = sleepTick (s\<lparr>sleepTimer := Seconds 1\<rparr>)" by simp
  also have "\<dots> = (pause (s\<lparr>sleepTimer := Seconds 1\<rparr>))\<lparr>sleepTimer := NoTimer\<rparr>"
    using assms(1) by (intro sleepTick_last) simp_all
  also have "\<dots> = (pause s)\<lparr>sleepTimer := NoTimer\<rparr>"
    by (simp add: pause_def clearWatchdog_def)
  finally show ?thesis .
qed

text \<open>
  Claim C7. With the sleep timer at 30 and the status Speaking, after 29 seconds the
  status is still Speaking and one second is left; after 30 seconds the status is Paused
  and the timer is absent. While the status is not Speaking a second changes nothing.
\<close>

theorem sleep_timer_thirty:
  "(isSpeaking s \<and> sleepTimer s = Seconds 30 \<longrightarrow>
      status ((sleepTick ^^ 29) s) = Speaking \<and>
      sleepTimer ((sleepTick ^^ 29) s) = Seconds 1 \<and>
      status ((sleepTick ^^ 30) s) = Paused \<and>
      sleepTimer ((sleepTick ^^ 30) s) = NoTimer) \<and>
   (\<not> isSpeaking s \<longrightarrow> sleepTick s = s)"
proof -
  have idle: "\<not> isSpeaking s \<longrightarrow> sleepTick s = s"
    by (simp add: sleepTick_def sleepIntervalRunning_def split: sleep_timer.splits)
  {
    assume a: "isSpeaking s" "sleepTimer s = Seconds 30"
    have b: "sleepTimer s = Seconds (int 30)" using a(2) by simp
    have "(sleepTick ^^ 29) s = s\<lparr>sleepTimer := Seconds (int 30 - int 29)\<rparr>"
      using a(1) b by (rule sleepTick_count) simp
    then have 1: "(sleepTick ^^ 29) s = s\<lparr>sleepTimer := Seconds 1\<rparr>" by simp
    have c: "sleepTimer s = Seconds (int (Suc 29))" using a(2) by simp
    have "(sleepTick ^^ Suc 29) s = (pause s)\<lparr>sleepTimer := NoTimer\<rparr>"
      using a(1) c by (rule sleepTick_expiry)
    then have 2: "(sleepTick ^^ 30) s = (pause s)\<lparr>sleepTimer := NoTimer\<rparr>" by simp
    have "status ((sleepTick ^^ 29) s) = Speaking \<and>
      sleepTimer ((sleepTick ^^ 29) s) = Seconds 1 \<and>
      status ((sleepTick ^^ 30) s) = Paused \<and>
      sleepTimer ((sleepTick ^^ 30) s) = NoTimer"
      unfolding 1 2 using a(1) by (simp add: status_def pause_def clearWatchdog_def)
  }
  with idle show ?thesis by blast
qed

theorem sleep_timer_thirty_witness:
  "isSpeaking ((play 0 0 initialState)\<lparr>sleepTimer := Seconds 30\<rparr>) \<and>
   sleepTimer ((play 0 0 initialState)\<lparr>sleepTimer := Seconds 30\<rparr>) = Seconds 30 \<and>
   status ((sleepTick ^^ 30) ((play 0 0 initialState)\<lparr>sleepTimer := Seconds 30\<rparr>))
     = Paused \<and>
   sleepTimer ((sleepTick ^^ 30) ((play 0 0 initialState)\<lparr>sleepTimer := Seconds 30\<rparr>))
     = NoTimer \<and>
   \<not> isSpeaking initialState \<and> sleepTick initialState = initialState"
  using sleep_timer_thirty [of "(play 0 0 initialState)\<lparr>sleepTimer := Seconds 30\<rparr>"]
    sleep_timer_thirty [of initialState]
  by (simp add: play_def initialState_def)

section \<open>Properties of the persisted progress\<close>

lemma getProp_progressRecord:
  "getProp (progressRecord s) ''currentChapterIndex'' = Some (JNum (currentChapterIndex s))"
  "getProp (progressRecord s) ''currentChunkIndex'' = Some (JNum (currentChunkIndex s))"
  "getProp (progressRecord s) ''currentCharIndex'' = None"
  by (simp_all add: progressRecord_def)

text \<open>
  Claim C8. The record saved after \<open>pause\<close> has the two members \<open>currentChapterIndex\<close> and
  \<open>currentChunkIndex\<close> and no other; loading it sets the chapter and chunk indices to the
  saved ones and leaves the character index, which is 0 in the state of a newly mounted
  hook, whatever it was when the record was saved.
\<close>

theorem progress_is_chunk_granular:
  "saveProgressEffect (progressKey (Some filename)) (pause s) st
       (''lukpaleelibros-progress-'' @ filename)
     = Some (Parsed (JObj [(''currentChapterIndex'', JNum (currentChapterIndex s)),
                           (''currentChunkIndex'', JNum (currentChunkIndex s))])) \<and>
   loadProgressEffect (progressKey (Some filename))
       (saveProgressEffect (progressKey (Some filename)) (pause s) st) s'
     = Some (s'\<lparr>currentChapterIndex := currentChapterIndex s,
                currentChunkIndex := currentChunkIndex s, isProgressLoading := False\<rparr>) \<and>
   map_option position
       (loadProgressEffect (progressKey (Some filename))
          (saveProgressEffect (progressKey (Some filename)) (pause s) st) initialState)
     = Some (currentChapterIndex s, currentChunkIndex s, 0)"
  by (simp add: saveProgressEffect_def loadProgressEffect_def progressKey_def pause_def
      clearWatchdog_def progressRecord_def position_def initialState_def)

lemma getProp_truthy: "getProp progress name = Some v \<Longrightarrow> truthy progress"
  by (cases progress) simp_all

lemma loadProgressEffect_chapter:
  assumes "st k = Some (Parsed progress)"
    "getProp progress ''currentChapterIndex'' = Some (JNum n)"
    "loadProgressEffect (Some k) st s = Some s'"
  shows "currentChapterIndex s' = n"
  using assms getProp_truthy [OF assms(2)]
  by (auto simp: loadProgressEffect_def split: option.splits json.splits)

text \<open>
  Claim C10. An item that parses to an object with a numeric \<open>currentChapterIndex\<close> \<open>n\<close>
  sets the chapter index to \<open>n\<close>, and the chunk index to the stored number, or to 0 when
  that member is absent or \<open>null\<close>. Nothing compares them with the book: with \<open>n\<close> at or
  above the number of chapters the position is outside the bounds of the data model.
\<close>

theorem load_progress_unclamped:
  assumes "st k = Some (Parsed progress)"
    "getProp progress ''currentChapterIndex'' = Some (JNum n)"
  shows
    "(getProp progress ''currentChunkIndex'' = None \<or>
      getProp progress ''currentChunkIndex'' = Some JNull \<longrightarrow>
        loadProgressEffect (Some k) st s
          = Some (s\<lparr>currentChapterIndex := n, currentChunkIndex := 0,
                     isProgressLoading := False\<rparr>)) \<and>
     (getProp progress ''currentChunkIndex'' = Some (JNum m) \<longrightarrow>
        loadProgressEffect (Some k) st s
          = Some (s\<lparr>currentChapterIndex := n, currentChunkIndex := m,
                     isProgressLoading := False\<rparr>)) \<and>
     (int (length cs) \<le> n \<longrightarrow>
        (case loadProgressEffect (Some k) st s of
           None \<Rightarrow> True
         | Some s' \<Rightarrow> currentChapterIndex s' = n \<and> \<not> validPosition cs (position s')))"
proof -
  note t = getProp_truthy [OF assms(2)]
  have a: "getProp progress ''currentChunkIndex'' = None \<or>
      getProp progress ''currentChunkIndex'' = Some JNull \<longrightarrow>
        loadProgressEffect (Some k) st s
          = Some (s\<lparr>currentChapterIndex := n, currentChunkIndex := 0,
                     isProgressLoading := False\<rparr>)"
    using assms t by (auto simp: loadProgressEffect_def)
  have b: "getProp progress ''currentChunkIndex'' = Some (JNum m) \<longrightarrow>
        loadProgressEffect (Some k) st s
          = Some (s\<lparr>currentChapterIndex := n, currentChunkIndex := m,
                     isProgressLoading := False\<rparr>)"
    using assms t by (auto simp: loadProgressEffect_def)
  have c: "int (length cs) \<le> n \<longrightarrow>
        (case loadProgressEffect (Some k) st s of
           None \<Rightarrow> True
         | Some s' \<Rightarrow> currentChapterIndex s' = n \<and> \<not> validPosition cs (position s'))"
    using loadProgressEffect_chapter [of st k progress n s] assms
    by (auto simp: validPosition_def position_def split: option.splits)
  from a b c show ?thesis by blast
qed

theorem load_progress_unclamped_witness:
  "loadProgressEffect (Some ''lukpaleelibros-progress-foo.epub'')
      [''lukpaleelibros-progress-foo.epub'' \<mapsto>
         Parsed (JObj [(''currentChapterIndex'', JNum 7), (''currentChunkIndex'', JNum 5)])]
      initialState
     = Some (initialState\<lparr>currentChapterIndex := 7, currentChunkIndex := 5,
                          isProgressLoading := False\<rparr>) \<and>
   \<not> validPosition [[''a'']]
       (position (initialState\<lparr>currentChapterIndex := 7, currentChunkIndex := 5,
                               isProgressLoading := False\<rparr>))"
proof -
  let ?k = "''lukpaleelibros-progress-foo.epub''"
  let ?p = "JObj [(''currentChapterIndex'', JNum 7), (''currentChunkIndex'', JNum 5)]"
  have h1: "[?k \<mapsto> Parsed ?p] ?k = Some (Parsed ?p)" by simp
  have h2: "getProp ?p ''currentChapterIndex'' = Some (JNum 7)" by simp
  have h3: "getProp ?p ''currentChunkIndex'' = Some (JNum 5)" by simp
  have h4: "int (length [[''a'']]) \<le> 7" by simp
  show ?thesis
    using load_progress_unclamped [where st = "[?k \<mapsto> Parsed ?p]" and k = ?k
        and progress = ?p and n = 7 and m = 5 and s = initialState and cs = "[[''a'']]"]
      h1 h2 h3 h4
    by (auto split: option.splits)
qed

text \<open>The other version of the hook runs this effect after the load, which brings the
  chapter index back under the number of chapters, and leaves the chunk index.\<close>

lemma chaptersEffect_v2_clamps:
  "currentChapterIndex (chaptersEffect_v2 chapters s) \<le> int (length chapters) - 1 \<and>
   currentChunkIndex (chaptersEffect_v2 chapters s) =
     (if chapters = [] then 0 else currentChunkIndex s)"
  by (auto simp: chaptersEffect_v2_def)

end
